theory Spec2Isabelle
  imports Main
begin

unbundle bit_operations_syntax

section \<open>Host values, errors and primitives\<close>

text \<open>
  The library is dynamically typed: every public entry point inspects its arguments with
  \<^verbatim>\<open>isinstance(x, int)\<close>. The values a caller can pass are modelled by \<open>pyval\<close>.
  Python's \<^verbatim>\<open>bool\<close> is a subclass of \<^verbatim>\<open>int\<close>, so \<open>BoolV\<close> passes the check and
  takes part in arithmetic with the values 0 and 1.
\<close>

datatype pyval = IntV int | BoolV bool | StrV string | NoneV

datatype error = TypeError | ValueError | ZeroDivisionError | IndexError | UnboundLocalError

text \<open>
  A computation either does not return (\<open>None\<close>), raises (\<open>Some (Inl e)\<close>) or returns a
  value (\<open>Some (Inr v)\<close>).
\<close>

type_synonym 'a result = "(error + 'a) option"

abbreviation bindR :: "'a result \<Rightarrow> ('a \<Rightarrow> 'b result) \<Rightarrow> 'b result" where
  "bindR x f \<equiv> Option.bind x (\<lambda>v. case v of Inl e \<Rightarrow> Some (Inl e) | Inr a \<Rightarrow> f a)"

definition isinstance_int :: "pyval \<Rightarrow> bool" where
  "isinstance_int v = (case v of IntV _ \<Rightarrow> True | BoolV _ \<Rightarrow> True | _ \<Rightarrow> False)"

text \<open>The integer value of an \<^verbatim>\<open>int\<close> instance (only used after the type check).\<close>

definition int_of :: "pyval \<Rightarrow> int" where
  "int_of v = (case v of IntV n \<Rightarrow> n | BoolV b \<Rightarrow> (if b then 1 else 0) | _ \<Rightarrow> 0)"

text \<open>Python's \<^verbatim>\<open>==\<close> on the values above: a bool equals the integer it stands for.\<close>

definition py_eq :: "pyval \<Rightarrow> pyval \<Rightarrow> bool" where
  "py_eq a b =
     (if isinstance_int a \<and> isinstance_int b then int_of a = int_of b else a = b)"

text \<open>\<^verbatim>\<open>int.bit_length()\<close>: the number of bits of the absolute value, 0 for 0.\<close>

function bit_length_nat :: "nat \<Rightarrow> nat" where
  "bit_length_nat n = (if n = 0 then 0 else Suc (bit_length_nat (n div 2)))"
  by pat_completeness auto
termination
  by (relation "measure (\<lambda>n. n)") auto

declare bit_length_nat.simps [simp del]

definition bit_length :: "int \<Rightarrow> nat" where
  "bit_length x = bit_length_nat (nat \<bar>x\<bar>)"

text \<open>The host's \<^verbatim>\<open>divmod\<close> on integers: floored division, raising on a zero divisor.\<close>

definition py_divmod :: "int \<Rightarrow> int \<Rightarrow> (int \<times> int) result" where
  "py_divmod m n =
     (if n = 0 then Some (Inl ZeroDivisionError) else Some (Inr (m div n, m mod n)))"

text \<open>Subscripting a list: an index below zero is taken from the end of the list.\<close>

definition py_index :: "'a list \<Rightarrow> int \<Rightarrow> error + 'a" where
  "py_index xs i =
     (if 0 \<le> i \<and> i < int (length xs) then Inr (xs ! nat i)
      else if i < 0 \<and> - int (length xs) \<le> i then Inr (xs ! nat (int (length xs) + i))
      else Inl IndexError)"

text \<open>The host's \<^verbatim>\<open>str\<close> on integers and booleans.\<close>

definition digit_char :: "nat \<Rightarrow> char" where
  "digit_char d = ''0123456789'' ! d"

function str_nat :: "nat \<Rightarrow> string" where
  "str_nat n = (if n < 10 then [digit_char n] else str_nat (n div 10) @ [digit_char (n mod 10)])"
  by pat_completeness auto
termination
  by (relation "measure (\<lambda>n. n)") auto

declare str_nat.simps [simp del]

definition str_int :: "int \<Rightarrow> string" where
  "str_int n = (if n < 0 then CHR ''-'' # str_nat (nat (- n)) else str_nat (nat n))"

definition py_str :: "pyval \<Rightarrow> string" where
  "py_str v = (case v of IntV n \<Rightarrow> str_int n
               | BoolV b \<Rightarrow> (if b then ''True'' else ''False'')
               | StrV s \<Rightarrow> s
               | NoneV \<Rightarrow> ''None'')"

section \<open>The split helper\<close>

text \<open>
  \<^verbatim>\<open>_splitHiLo(num, bitIdx)\<close>: \<^verbatim>\<open>hi = num >> bitIdx\<close>, \<^verbatim>\<open>lo = num & ((1 << bitIdx) - 1)\<close>.
  Python's shifts and masks on negative integers act on the infinite two's complement
  representation, as the bit operations on \<open>int\<close> do. Every bit index the kernel passes is a
  difference of bit lengths that the enclosing branch condition makes nonnegative.
\<close>

definition splitHiLo :: "int \<Rightarrow> nat \<Rightarrow> int \<times> int" where
  "splitHiLo num bitIdx = (drop_bit bitIdx num, num AND (push_bit bitIdx 1 - 1))"

section \<open>The division kernel\<close>

text \<open>
  The correction loops of \<^verbatim>\<open>_divModPositiveArgs\<close>. Each is a \<^verbatim>\<open>while\<close> loop over the pair
  \<open>(q, r)\<close>; a loop that does not reach its exit is the value \<open>None\<close>.
\<close>

text \<open>\<^verbatim>\<open>while r < 0: r += n; q -= 1\<close>\<close>

partial_function (option) corr_neg :: "int \<Rightarrow> int \<Rightarrow> int \<Rightarrow> (int \<times> int) result" where
  "corr_neg n q r = (if r < 0 then corr_neg n (q - 1) (r + n) else Some (Inr (q, r)))"

text \<open>
  The number of times the body of that loop runs when it is entered with remainder \<open>r\<close>
  (the loop itself keeps no such count; each run also lowers \<open>q\<close> by one).
\<close>

partial_function (option) corr_neg_iterations :: "int \<Rightarrow> int \<Rightarrow> nat option" where
  "corr_neg_iterations n r =
     (if r < 0 then Option.bind (corr_neg_iterations n (r + n)) (\<lambda>c. Some (Suc c)) else Some 0)"

text \<open>\<^verbatim>\<open>while r >= n: r -= n; q += 1\<close>\<close>

partial_function (option) corr_ge :: "int \<Rightarrow> int \<Rightarrow> int \<Rightarrow> (int \<times> int) result" where
  "corr_ge n q r = (if r \<ge> n then corr_ge n (q + 1) (r - n) else Some (Inr (q, r)))"

text \<open>\<^verbatim>\<open>while r1.bit_length() >= k: r1 -= n; q1 += 1\<close>\<close>

partial_function (option) corr_bits :: "nat \<Rightarrow> int \<Rightarrow> int \<Rightarrow> int \<Rightarrow> (int \<times> int) result" where
  "corr_bits k n q r =
     (if bit_length r \<ge> k then corr_bits k n (q + 1) (r - n) else Some (Inr (q, r)))"

text \<open>
  The kernel calls itself and, in its last case, runs a \<^verbatim>\<open>while\<close> loop whose body calls
  the kernel again. Both are one recursive function over a frame: \<open>DivMod m n\<close> is a call
  \<^verbatim>\<open>_divModPositiveArgs(m, n)\<close>, and \<open>LongDiv n q r remainingBits\<close> is the state at the head
  of the loop \<^verbatim>\<open>while r > n\<close> of the long-division case.

  In the long-division loop \<^verbatim>\<open>max(r.bit_length() - 2 * k, 0)\<close> is the truncating
  subtraction on \<open>nat\<close>, and \<^verbatim>\<open>q <<= bitsProcessed\<close> raises \<^verbatim>\<open>ValueError\<close> on a negative
  shift count.
\<close>

datatype frame = DivMod int int | LongDiv int int int nat

partial_function (option) divmod_rec :: "frame \<Rightarrow> (int \<times> int) result" where
  "divmod_rec c = (case c of
     DivMod m n \<Rightarrow>
       (let m_len = bit_length m; n_len = bit_length n in
        if bit_length n < 10000 then py_divmod m n
        else if m_len < n_len then Some (Inr (0, m))
        else if m_len = n_len then corr_ge n 0 m
        else if m_len < 2 * n_len then
          (let k = m_len - n_len;
               excess_bits = n_len - k;
               (m_hi, m_lo) = splitHiLo m excess_bits;
               (n_hi, n_lo) = splitHiLo n excess_bits in
           bindR (divmod_rec (DivMod m_hi n_hi)) (\<lambda>(q, r).
             let r = (push_bit excess_bits r OR m_lo) - n_lo * q in
             bindR (corr_neg n q r) (\<lambda>(q, r). corr_ge n q r)))
        else if m_len = 2 * n_len then
          (let k = n_len;
               kh_floor = k div 2;
               kh_ceil = k - kh_floor;
               (m_hi, m_mid) = splitHiLo m k;
               (m_mid, m_lo) = splitHiLo m_mid kh_ceil;
               (n_hi, n_lo) = splitHiLo n kh_floor in
           bindR (divmod_rec (DivMod m_hi n_hi)) (\<lambda>(q1, r1).
             let r1 = (push_bit kh_floor r1 OR m_mid) - n_lo * q1 in
             bindR (corr_neg n q1 r1) (\<lambda>(q1, r1).
             bindR (corr_bits k n q1 r1) (\<lambda>(q1, r1).
             bindR (divmod_rec (DivMod r1 n_hi)) (\<lambda>(q2, r2).
               let q2 = (if int k AND 1 \<noteq> 0 then push_bit 1 q2 else q2);
                   r2 = (push_bit kh_ceil r2 OR m_lo) - n_lo * q2 in
               bindR (corr_neg n q2 r2) (\<lambda>(q2, r2).
               bindR (corr_ge n q2 r2) (\<lambda>(q2, r2).
                 Some (Inr (push_bit kh_ceil q1 + q2, r2)))))))))
        else divmod_rec (LongDiv n 0 m (bit_length m - 2 * bit_length n)))
   | LongDiv n q r remainingBits \<Rightarrow>
       (let k = bit_length n in
        if r > n then
          (let newRemainingBits = bit_length r - 2 * k in
           if remainingBits < newRemainingBits then Some (Inl ValueError)
           else
             (let bitsProcessed = remainingBits - newRemainingBits;
                  remainingBits = newRemainingBits;
                  q = push_bit bitsProcessed q;
                  (r_hi, r_lo) = splitHiLo r remainingBits in
              bindR (divmod_rec (DivMod r_hi n)) (\<lambda>(qi, r).
                let r = push_bit remainingBits r OR r_lo;
                    q = q + qi in
                divmod_rec (LongDiv n q r remainingBits))))
        else Some (Inr (push_bit remainingBits q, r))))"

definition divModPositiveArgs :: "int \<Rightarrow> int \<Rightarrow> (int \<times> int) result" where
  "divModPositiveArgs m n = divmod_rec (DivMod m n)"

text \<open>
  The only output statement of the library is the \<^verbatim>\<open>print(m, n)\<close> of the case
  \<^verbatim>\<open>m_len < 2 * n_len\<close>, guarded by \<^verbatim>\<open>n_hi == 0\<close>. It returns nothing and assigns nothing,
  so the kernel above does not mention it; \<open>debug_print_fires m n\<close> is the condition under
  which a call \<^verbatim>\<open>_divModPositiveArgs(m, n)\<close> executes it.
\<close>

definition debug_print_fires :: "int \<Rightarrow> int \<Rightarrow> bool" where
  "debug_print_fires m n =
     (let m_len = bit_length m; n_len = bit_length n in
      if bit_length n < 10000 then False
      else if m_len < n_len then False
      else if m_len = n_len then False
      else if m_len < 2 * n_len then
        (let k = m_len - n_len;
             excess_bits = n_len - k;
             (n_hi, n_lo) = splitHiLo n excess_bits in
         n_hi = 0)
      else False)"

section \<open>The signed division wrapper\<close>

definition fastBigIntDivMod :: "pyval \<Rightarrow> pyval \<Rightarrow> (pyval \<times> pyval) result" where
  "fastBigIntDivMod mv nv =
     (if \<not> isinstance_int mv \<or> \<not> isinstance_int nv then Some (Inl TypeError)
      else
        (let m = int_of mv; n = int_of nv in
         bindR (divModPositiveArgs \<bar>m\<bar> \<bar>n\<bar>) (\<lambda>(q, r).
           if m > 0 \<and> n > 0 then Some (Inr (IntV q, IntV r))
           else if m < 0 \<and> n < 0 then Some (Inr (IntV q, IntV (- r)))
           else if r = 0 then Some (Inr (IntV (- q), IntV r))
           else
             (let q = - (q + 1) in
              if m > 0 then Some (Inr (IntV q, IntV (n + r)))
              else Some (Inr (IntV q, IntV (n - r)))))))"

section \<open>Base-10 conversion\<close>

text \<open>
  The power table: \<^verbatim>\<open>powers = [10]\<close>, then
  \<^verbatim>\<open>while powers[-1].bit_length() * 2 < n.bit_length(): powers.append(powers[-1]*powers[-1])\<close>.
\<close>

partial_function (option) powers_loop :: "int list \<Rightarrow> int \<Rightarrow> int list result" where
  "powers_loop powers n =
     (case py_index powers (- 1) of
        Inl e \<Rightarrow> Some (Inl e)
      | Inr p \<Rightarrow>
          if bit_length p * 2 < bit_length n then powers_loop (powers @ [p * p]) n
          else Some (Inr powers))"

text \<open>
  \<^verbatim>\<open>_toBase10StringHelper(n, powers, digitsLog2)\<close>. The first argument is the value the
  caller passed (the public wrapper hands its own argument through, recursive calls pass
  integers). \<^verbatim>\<open>1 << digitsLog2\<close> raises \<^verbatim>\<open>ValueError\<close> for a negative count, and
  a string repeated a negative number of times is empty.
\<close>

partial_function (option) toBase10StringHelper ::
    "pyval \<Rightarrow> int list \<Rightarrow> int \<Rightarrow> string result" where
  "toBase10StringHelper n powers digitsLog2 =
     (if bit_length (int_of n) < 20000 then
        (let chars = py_str n in
         if digitsLog2 < 0 then Some (Inl ValueError)
         else Some (Inr (replicate (nat (push_bit (nat digitsLog2) 1 - int (length chars)))
                           CHR ''0'' @ chars)))
      else
        (case py_index powers (digitsLog2 - 1) of
           Inl e \<Rightarrow> Some (Inl e)
         | Inr p \<Rightarrow>
             bindR (divModPositiveArgs (int_of n) p) (\<lambda>(lhs, rhs).
               bindR (toBase10StringHelper (IntV lhs) powers (digitsLog2 - 1)) (\<lambda>a.
               bindR (toBase10StringHelper (IntV rhs) powers (digitsLog2 - 1)) (\<lambda>b.
                 Some (Inr (a @ b)))))))"

text \<open>
  \<^verbatim>\<open>for i,c in enumerate(chars): if c != '0': break\<close> followed by \<^verbatim>\<open>return chars[i:]\<close>.
  The loop variable \<open>i\<close> keeps the last index it was given; on an empty string it is never
  bound and the \<^verbatim>\<open>return\<close> raises.
\<close>

fun strip_loop :: "nat option \<Rightarrow> nat \<Rightarrow> string \<Rightarrow> nat option" where
  "strip_loop i j [] = i"
| "strip_loop i j (c # cs) = (if c \<noteq> CHR ''0'' then Some j else strip_loop (Some j) (Suc j) cs)"

definition strip_leading_zeros :: "string \<Rightarrow> string result" where
  "strip_leading_zeros chars =
     (case strip_loop None 0 chars of
        None \<Rightarrow> Some (Inl UnboundLocalError)
      | Some i \<Rightarrow> Some (Inr (drop i chars)))"

partial_function (option) fastBigIntStrBase10 :: "pyval \<Rightarrow> string result" where
  "fastBigIntStrBase10 n =
     (if \<not> isinstance_int n then Some (Inl TypeError)
      else if int_of n = 0 then Some (Inr ''0'')
      else if int_of n < 0 then
        bindR (fastBigIntStrBase10 (IntV (- int_of n))) (\<lambda>s. Some (Inr (CHR ''-'' # s)))
      else
        bindR (powers_loop [10] (int_of n)) (\<lambda>powers.
          bindR (toBase10StringHelper n powers (int (length powers))) (\<lambda>chars.
            strip_leading_zeros chars)))"

text \<open>Reading a decimal string back, for stating what the conversion returns.\<close>

definition digit_val :: "char \<Rightarrow> nat" where
  "digit_val c = of_char c - 48"

definition parse_nat :: "string \<Rightarrow> nat" where
  "parse_nat s = foldl (\<lambda>a c. 10 * a + digit_val c) 0 s"

definition parse_int :: "string \<Rightarrow> int" where
  "parse_int s = (case s of
     [] \<Rightarrow> 0
   | c # cs \<Rightarrow> if c = CHR ''-'' then - int (parse_nat cs) else int (parse_nat s))"

section \<open>Floor square root\<close>

text \<open>\<^verbatim>\<open>while (s+1)*(s+1) <= n: s += 1\<close>\<close>

partial_function (option) sqrt_brute :: "int \<Rightarrow> int \<Rightarrow> int result" where
  "sqrt_brute n s = (if (s + 1) * (s + 1) \<le> n then sqrt_brute n (s + 1) else Some (Inr s))"

text \<open>\<^verbatim>\<open>while actualSquare > n: approx -= 1; actualSquare -= ((approx << 1) | 1)\<close>\<close>

partial_function (option) sqrt_down :: "int \<Rightarrow> int \<Rightarrow> int \<Rightarrow> int result" where
  "sqrt_down n approx actualSquare =
     (if actualSquare > n then
        (let approx = approx - 1;
             actualSquare = actualSquare - (push_bit 1 approx OR 1)
         in sqrt_down n approx actualSquare)
      else Some (Inr approx))"

text \<open>\<^verbatim>\<open>while actualSquare <= n: approx += 1; actualSquare += ((approx << 1) | 1)\<close>\<close>

partial_function (option) sqrt_up :: "int \<Rightarrow> int \<Rightarrow> int \<Rightarrow> int result" where
  "sqrt_up n approx actualSquare =
     (if actualSquare \<le> n then
        (let approx = approx + 1;
             actualSquare = actualSquare + (push_bit 1 approx OR 1)
         in sqrt_up n approx actualSquare)
      else Some (Inr approx))"

text \<open>
  \<^verbatim>\<open>_floorSqrtPositiveInt(n)\<close>. For a bit length of at most one the argument itself is
  returned, whatever its type.
\<close>

partial_function (option) floorSqrtPositiveInt :: "pyval \<Rightarrow> pyval result" where
  "floorSqrtPositiveInt nv =
     (let n = int_of nv in
      if bit_length n \<le> 1 then Some (Inr nv)
      else if bit_length n < 8 then bindR (sqrt_brute n 1) (\<lambda>s. Some (Inr (IntV s)))
      else
        (let resultPadBits = bit_length n div 4;
             padBits = 2 * resultPadBits in
         bindR (floorSqrtPositiveInt (IntV (drop_bit padBits n))) (\<lambda>s.
           let approx = push_bit resultPadBits (int_of s) in
           bindR (divModPositiveArgs n approx) (\<lambda>(q, r).
             let approx = drop_bit 1 (approx + q);
                 actualSquare = approx * approx in
             if actualSquare > n then
               (let approx = approx - 1;
                    actualSquare = actualSquare - (push_bit 1 approx OR 1) in
                bindR (sqrt_down n approx actualSquare) (\<lambda>a. Some (Inr (IntV a))))
             else
               (let actualSquare = actualSquare + (push_bit 1 approx OR 1) in
                bindR (sqrt_up n approx actualSquare) (\<lambda>a. Some (Inr (IntV a))))))))"

definition fastBigIntFloorSqrt :: "pyval \<Rightarrow> pyval result" where
  "fastBigIntFloorSqrt nv =
     (if \<not> isinstance_int nv then Some (Inl TypeError)
      else if int_of nv < 0 then Some (Inl ValueError)
      else floorSqrtPositiveInt nv)"

section \<open>Bit lengths and splitting\<close>


lemma bit_length_nat_le_iff: "bit_length_nat n \<le> k \<longleftrightarrow> n < 2 ^ k"
proof (induction k arbitrary: n)
  case 0
  show ?case by (subst bit_length_nat.simps) simp
next
  case (Suc k)
  have "bit_length_nat n \<le> Suc k \<longleftrightarrow> n = 0 \<or> bit_length_nat (n div 2) \<le> k"
    by (subst bit_length_nat.simps) simp
  also have "\<dots> \<longleftrightarrow> n = 0 \<or> n div 2 < 2 ^ k" by (simp only: Suc.IH)
  also have "\<dots> \<longleftrightarrow> n < 2 ^ Suc k" by auto
  finally show ?case .
qed

lemma bit_length_le_iff: "bit_length x \<le> k \<longleftrightarrow> \<bar>x\<bar> < 2 ^ k"
proof -
  have "nat \<bar>x\<bar> < 2 ^ k \<longleftrightarrow> \<bar>x\<bar> < 2 ^ k"
    by (metis nat_less_iff abs_ge_zero of_nat_numeral of_nat_power)
  then show ?thesis by (simp add: bit_length_def bit_length_nat_le_iff)
qed

lemma bit_length_gt_iff: "k < bit_length x \<longleftrightarrow> 2 ^ k \<le> \<bar>x\<bar>"
  using bit_length_le_iff [of x k] by linarith

lemma bit_length_eq_0_iff: "bit_length x = 0 \<longleftrightarrow> x = 0"
  using bit_length_le_iff [of x 0] by simp

lemma bit_length_0 [simp]: "bit_length 0 = 0"
  by (simp add: bit_length_eq_0_iff)

lemma bit_length_eqI:
  assumes "2 ^ k \<le> \<bar>x\<bar>" and "\<bar>x\<bar> < 2 ^ Suc k"
  shows "bit_length x = Suc k"
proof -
  have "k < bit_length x" using assms(1) by (simp add: bit_length_gt_iff)
  moreover have "bit_length x \<le> Suc k" using assms(2) by (simp only: bit_length_le_iff)
  ultimately show ?thesis by linarith
qed

lemma bit_length_pow2: "bit_length (2 ^ k) = Suc k"
  by (rule bit_length_eqI) simp_all

lemma bit_length_upper: "\<bar>x\<bar> < 2 ^ bit_length x"
  using bit_length_le_iff [of x "bit_length x"] by simp

lemma bit_length_lower: "x \<noteq> 0 \<Longrightarrow> 2 ^ (bit_length x - 1) \<le> \<bar>x\<bar>"
  using bit_length_gt_iff [of "bit_length x - 1" x] bit_length_eq_0_iff [of x] by simp

lemma bit_length_mono: "\<bar>x\<bar> \<le> \<bar>y\<bar> \<Longrightarrow> bit_length x \<le> bit_length y"
  using bit_length_upper [of y] by (simp add: bit_length_le_iff)

lemma bit_length_uminus [simp]: "bit_length (- x) = bit_length x"
  by (simp add: bit_length_def)

lemma bit_length_abs [simp]: "bit_length \<bar>x\<bar> = bit_length x"
  by (simp add: bit_length_def)

lemma int_div_less_iff:
  assumes "0 < (b::int)"
  shows "a div b < c \<longleftrightarrow> a < c * b"
proof
  assume "a div b < c"
  then have "a div b + 1 \<le> c" by simp
  then have "(a div b + 1) * b \<le> c * b" using assms by (simp add: mult_right_mono)
  moreover have "a < (a div b + 1) * b"
  proof -
    have "a = (a div b) * b + a mod b" by simp
    moreover have "a mod b < b" using assms by simp
    ultimately have "a < (a div b) * b + b" by linarith
    then show ?thesis by (simp add: algebra_simps)
  qed
  ultimately show "a < c * b" by linarith
next
  assume lt: "a < c * b"
  show "a div b < c"
  proof (rule ccontr)
    assume "\<not> a div b < c"
    then have "c * b \<le> (a div b) * b" using assms by (simp add: mult_right_mono)
    moreover have "(a div b) * b \<le> a"
    proof -
      have "a = (a div b) * b + a mod b" by simp
      moreover have "0 \<le> a mod b" using assms by simp
      ultimately show ?thesis by linarith
    qed
    ultimately show False using lt by linarith
  qed
qed

lemma bit_length_drop_bit:
  assumes "0 \<le> x"
  shows "bit_length (drop_bit e x) = bit_length x - e"
proof -
  have nn: "0 \<le> drop_bit e x" using assms by simp
  have "bit_length (drop_bit e x) \<le> j \<longleftrightarrow> bit_length x - e \<le> j" for j
  proof -
    have "bit_length (drop_bit e x) \<le> j \<longleftrightarrow> x div 2 ^ e < 2 ^ j"
      using nn by (simp add: bit_length_le_iff drop_bit_eq_div)
    also have "\<dots> \<longleftrightarrow> x < 2 ^ j * 2 ^ e"
      by (simp add: int_div_less_iff)
    also have "\<dots> \<longleftrightarrow> bit_length x \<le> j + e"
      using assms by (simp add: bit_length_le_iff power_add)
    finally show ?thesis by linarith
  qed
  then show ?thesis by (meson order_antisym order_refl)
qed

lemma splitHiLo_eq: "splitHiLo num b = (num div 2 ^ b, num mod 2 ^ b)"
  by (simp add: splitHiLo_def drop_bit_eq_div push_bit_eq_mult flip: mask_eq_exp_minus_1 take_bit_eq_mask take_bit_eq_mod)

lemma push_or_eq_add:
  assumes "0 \<le> lo" "lo < 2 ^ e"
  shows "push_bit e (r::int) OR lo = r * 2 ^ e + lo"
proof -
  have "take_bit e lo = lo" using assms by (simp add: take_bit_int_eq_self)
  then have "push_bit e r OR lo = push_bit e r OR take_bit e lo" by simp
  also have "\<dots> = push_bit e r + take_bit e lo"
    by (rule disjunctive_add_eq_or [symmetric]) (simp add: bit_eq_iff bit_simps)
  finally show ?thesis using \<open>take_bit e lo = lo\<close> by (simp add: push_bit_eq_mult)
qed


subsection \<open>Correction loops\<close>

lemma corr_ge_steps:
  "0 < n \<Longrightarrow> n * int j \<le> r \<Longrightarrow> corr_ge n q r = corr_ge n (q + int j) (r - n * int j)"
proof (induction j arbitrary: q r)
  case 0
  show ?case by simp
next
  case (Suc j)
  have "n \<le> n * int (Suc j)" using Suc.prems(1) by simp
  then have ge: "n \<le> r" using Suc.prems(2) by linarith
  have le: "n * int j \<le> r - n" using Suc.prems(2) by (simp add: algebra_simps)
  have "corr_ge n q r = corr_ge n (q + 1) (r - n)"
    using ge by (subst corr_ge.simps) simp
  also have "\<dots> = corr_ge n (q + 1 + int j) (r - n - n * int j)"
    by (rule Suc.IH [OF Suc.prems(1) le])
  finally show ?case by (simp add: algebra_simps)
qed

lemma corr_ge_exit: "r < n \<Longrightarrow> corr_ge n q r = Some (Inr (q, r))"
  by (subst corr_ge.simps) simp

lemma corr_ge_eq:
  assumes "0 < n"
  shows "corr_ge n q r = Some (Inr (if n \<le> r then (q + r div n, r mod n) else (q, r)))"
proof (cases "n \<le> r")
  case False
  then show ?thesis by (simp add: corr_ge_exit)
next
  case True
  then have nn: "0 \<le> r div n" using assms by (simp add: pos_imp_zdiv_nonneg_iff)
  define j where "j = nat (r div n)"
  have j: "int j = r div n" using nn by (simp add: j_def)
  have "n * int j \<le> r" unfolding j using assms
    by (metis mult.commute mult_div_mod_eq pos_mod_sign le_add_same_cancel1 add.commute)
  then have "corr_ge n q r = corr_ge n (q + int j) (r - n * int j)"
    by (rule corr_ge_steps [OF assms])
  also have "r - n * int j = r mod n" unfolding j by (simp add: minus_mult_div_eq_mod)
  also have "corr_ge n (q + int j) (r mod n) = Some (Inr (q + int j, r mod n))"
    using assms by (simp add: corr_ge_exit)
  finally show ?thesis using True by (simp add: j)
qed

lemma corr_neg_steps:
  "0 < n \<Longrightarrow> r + n * int j \<le> 0 \<Longrightarrow> corr_neg n q r = corr_neg n (q - int j) (r + n * int j)"
proof (induction j arbitrary: q r)
  case 0
  show ?case by simp
next
  case (Suc j)
  have "0 < n * int (Suc j)" using Suc.prems(1) by simp
  then have neg: "r < 0" using Suc.prems(2) by linarith
  have le: "(r + n) + n * int j \<le> 0" using Suc.prems(2) by (simp add: algebra_simps)
  have "corr_neg n q r = corr_neg n (q - 1) (r + n)"
    using neg by (subst corr_neg.simps) simp
  also have "\<dots> = corr_neg n (q - 1 - int j) (r + n + n * int j)"
    by (rule Suc.IH [OF Suc.prems(1) le])
  finally show ?case by (simp add: algebra_simps)
qed

lemma corr_neg_exit: "0 \<le> r \<Longrightarrow> corr_neg n q r = Some (Inr (q, r))"
  by (subst corr_neg.simps) simp

lemma corr_neg_eq:
  assumes "0 < n"
  shows "corr_neg n q r = Some (Inr (if r < 0 then (q + r div n, r mod n) else (q, r)))"
proof (cases "r < 0")
  case False
  then show ?thesis by (simp add: corr_neg_exit)
next
  case True
  then have neg: "r div n < 0" using assms by (simp add: div_neg_pos_less0)
  define j where "j = nat (- (r div n) - 1)"
  have j: "int j = - (r div n) - 1" using neg by (simp add: j_def)
  have md: "r = n * (r div n) + r mod n" by simp
  have "r + n * int j = r mod n - n" unfolding j
    using md by (simp add: algebra_simps)
  moreover have "r mod n < n" using assms by simp
  ultimately have le: "r + n * int j \<le> 0" by linarith
  have "corr_neg n q r = corr_neg n (q - int j) (r + n * int j)"
    by (rule corr_neg_steps [OF assms le])
  also have "\<dots> = corr_neg n (q - int j) (r mod n - n)"
    using \<open>r + n * int j = r mod n - n\<close> by simp
  also have "\<dots> = corr_neg n (q - int j - 1) (r mod n - n + n)"
    using \<open>r mod n < n\<close> by (subst corr_neg.simps) simp
  also have "\<dots> = Some (Inr (q - int j - 1, r mod n))"
    using assms by (simp add: corr_neg_exit)
  finally show ?thesis using True by (simp add: j)
qed

lemma corr_neg_post:
  assumes "0 < n"
  obtains q' r' where "corr_neg n q r = Some (Inr (q', r'))" "q' * n + r' = q * n + r" "0 \<le> r'"
    "r < n \<Longrightarrow> r' < n"
proof (cases "r < 0")
  case True
  show ?thesis
  proof (rule that [of "q + r div n" "r mod n"])
    show "corr_neg n q r = Some (Inr (q + r div n, r mod n))"
      using True by (simp add: corr_neg_eq [OF assms])
    show "(q + r div n) * n + r mod n = q * n + r" by (simp add: algebra_simps)
    show "0 \<le> r mod n" using assms by simp
    show "r mod n < n" using assms by simp
  qed
next
  case False
  show ?thesis
    by (rule that [of q r]) (use False in \<open>simp_all add: corr_neg_eq [OF assms]\<close>)
qed

lemma corr_ge_post:
  assumes "0 < n"
  obtains q' r' where "corr_ge n q r = Some (Inr (q', r'))" "q' * n + r' = q * n + r" "r' < n"
    "0 \<le> r \<Longrightarrow> 0 \<le> r'"
proof (cases "n \<le> r")
  case True
  show ?thesis
  proof (rule that [of "q + r div n" "r mod n"])
    show "corr_ge n q r = Some (Inr (q + r div n, r mod n))"
      using True by (simp add: corr_ge_eq [OF assms])
    show "(q + r div n) * n + r mod n = q * n + r" by (simp add: algebra_simps)
    show "0 \<le> r mod n" using assms by simp
    show "r mod n < n" using assms by simp
  qed
next
  case False
  show ?thesis
    by (rule that [of q r]) (use False in \<open>simp_all add: corr_ge_eq [OF assms]\<close>)
qed

lemma corr_bits_post:
  assumes n: "0 < n" "n < 2 ^ k" "2 ^ (k - 1) \<le> n" and k: "0 < k"
    and r: "- (2 ^ (k - 1)) < r"
  obtains q' r' where "corr_bits k n q r = Some (Inr (q', r'))" "q' * n + r' = q * n + r"
proof -
  have "\<exists>q' r'. corr_bits k n q r = Some (Inr (q', r')) \<and> q' * n + r' = q * n + r"
    using r
  proof (induction "nat r" arbitrary: q r rule: less_induct)
    case less
    show ?case
    proof (cases "k \<le> bit_length r")
      case False
      then have "corr_bits k n q r = Some (Inr (q, r))"
        by (subst corr_bits.simps) simp
      then show ?thesis by blast
    next
      case True
      then have "k - 1 < bit_length r" using k by linarith
      then have "2 ^ (k - 1) \<le> \<bar>r\<bar>" by (simp only: bit_length_gt_iff)
      then have pos: "2 ^ (k - 1) \<le> r" using less.prems by linarith
      have "(2::int) ^ k = 2 * 2 ^ (k - 1)" using k by (cases k) simp_all
      then have lb: "- (2 ^ (k - 1)) < r - n" using pos n(2) by linarith
      have "(0::int) < 2 ^ (k - 1)" by simp
      then have "0 < r" using pos by linarith
      then have dec: "nat (r - n) < nat r" using n(1) by linarith
      obtain q' r' where "corr_bits k n (q + 1) (r - n) = Some (Inr (q', r'))"
        "q' * n + r' = (q + 1) * n + (r - n)"
        using less.hyps [OF dec lb] by blast
      moreover have "corr_bits k n q r = corr_bits k n (q + 1) (r - n)"
        using True by (subst corr_bits.simps) simp
      ultimately show ?thesis by (auto simp: algebra_simps)
    qed
  qed
  then show ?thesis using that by blast
qed


subsection \<open>The kernel, case by case\<close>

lemma dm_bailout:
  "bit_length n < 10000 \<Longrightarrow> divmod_rec (DivMod m n) = py_divmod m n"
  by (subst divmod_rec.simps) simp

lemma dm_less:
  "\<not> bit_length n < 10000 \<Longrightarrow> bit_length m < bit_length n \<Longrightarrow>
   divmod_rec (DivMod m n) = Some (Inr (0, m))"
  by (subst divmod_rec.simps) simp

lemma dm_equal:
  "\<not> bit_length n < 10000 \<Longrightarrow> bit_length m = bit_length n \<Longrightarrow>
   divmod_rec (DivMod m n) = corr_ge n 0 m"
  by (subst divmod_rec.simps) simp

lemma dm_short:
  assumes "\<not> bit_length n < 10000" "bit_length n < bit_length m"
    "bit_length m < 2 * bit_length n"
    and e: "e = bit_length n - (bit_length m - bit_length n)"
  shows "divmod_rec (DivMod m n) =
    bindR (divmod_rec (DivMod (m div 2 ^ e) (n div 2 ^ e))) (\<lambda>(q, r).
      bindR (corr_neg n q ((push_bit e r OR m mod 2 ^ e) - n mod 2 ^ e * q)) (\<lambda>(q, r).
        corr_ge n q r))"
  using assms(1-3) unfolding e
  by (subst divmod_rec.simps) (simp add: Let_def splitHiLo_eq)

lemma dm_ideal:
  assumes "\<not> bit_length n < 10000" "bit_length m = 2 * bit_length n"
    and k: "k = bit_length n" and kf: "kf = k div 2" and kc: "kc = k - k div 2"
  shows "divmod_rec (DivMod m n) =
    bindR (divmod_rec (DivMod (m div 2 ^ k) (n div 2 ^ kf))) (\<lambda>(q1, r1).
      bindR (corr_neg n q1 ((push_bit kf r1 OR (m mod 2 ^ k) div 2 ^ kc) - n mod 2 ^ kf * q1))
        (\<lambda>(q1, r1).
      bindR (corr_bits k n q1 r1) (\<lambda>(q1, r1).
      bindR (divmod_rec (DivMod r1 (n div 2 ^ kf))) (\<lambda>(q2, r2).
        bindR (corr_neg n (if int k AND 1 \<noteq> 0 then push_bit 1 q2 else q2)
                 ((push_bit kc r2 OR (m mod 2 ^ k) mod 2 ^ kc)
                   - n mod 2 ^ kf * (if int k AND 1 \<noteq> 0 then push_bit 1 q2 else q2)))
          (\<lambda>(q2, r2).
        bindR (corr_ge n q2 r2) (\<lambda>(q2, r2).
          Some (Inr (push_bit kc q1 + q2, r2))))))))"
proof -
  have ne: "bit_length n \<noteq> 0" using assms(1) by auto
  show ?thesis
    using assms(1,2) ne unfolding k kf kc
    by (subst divmod_rec.simps) (simp add: Let_def splitHiLo_eq)
qed

lemma dm_long:
  "\<not> bit_length n < 10000 \<Longrightarrow> 2 * bit_length n < bit_length m \<Longrightarrow>
   divmod_rec (DivMod m n) = divmod_rec (LongDiv n 0 m (bit_length m - 2 * bit_length n))"
  by (subst divmod_rec.simps) simp

lemma longdiv_exit:
  "r \<le> n \<Longrightarrow> divmod_rec (LongDiv n q r rb) = Some (Inr (push_bit rb q, r))"
  by (subst divmod_rec.simps) simp

lemma longdiv_step:
  assumes "n < r" and nb: "nb = bit_length r - 2 * bit_length n" and "nb \<le> rb"
  shows "divmod_rec (LongDiv n q r rb) =
    bindR (divmod_rec (DivMod (r div 2 ^ nb) n)) (\<lambda>(qi, r').
      divmod_rec (LongDiv n (push_bit (rb - nb) q + qi) (push_bit nb r' OR r mod 2 ^ nb) nb))"
  using assms(1,3) unfolding nb
  by (subst divmod_rec.simps) (simp add: Let_def splitHiLo_eq)


lemma bit_length_less_imp_less:
  assumes "0 < n" "bit_length m < bit_length n"
  shows "\<bar>m\<bar> < n"
proof -
  have "bit_length m \<le> bit_length n - 1" using assms(2) by linarith
  then have "(2::int) ^ bit_length m \<le> 2 ^ (bit_length n - 1)"
    by (simp add: power_increasing)
  moreover have "\<bar>m\<bar> < 2 ^ bit_length m" by (rule bit_length_upper)
  moreover have "2 ^ (bit_length n - 1) \<le> \<bar>n\<bar>" using assms(1) bit_length_lower [of n] by simp
  ultimately show ?thesis using assms(1) by linarith
qed

lemma hi_part_pos:
  assumes "0 < n" "e < bit_length n"
  shows "0 < n div 2 ^ e" and "bit_length (n div 2 ^ e) = bit_length n - e"
proof -
  show bl: "bit_length (n div 2 ^ e) = bit_length n - e"
    using bit_length_drop_bit [of n e] assms(1) by (simp add: drop_bit_eq_div)
  then have "n div 2 ^ e \<noteq> 0" using assms(2) bit_length_eq_0_iff [of "n div 2 ^ e"] by auto
  moreover have "0 \<le> n div 2 ^ e" using assms(1) by (simp add: pos_imp_zdiv_nonneg_iff)
  ultimately show "0 < n div 2 ^ e" by linarith
qed

lemma split_ident: "(x::int) = (x div 2 ^ e) * 2 ^ e + x mod 2 ^ e"
  by (rule div_mult_mod_eq [symmetric])

lemma dm_short_correct:
  assumes n: "0 < n" and b: "\<not> bit_length n < 10000" "bit_length n < bit_length m"
    "bit_length m < 2 * bit_length n"
    and e: "e = bit_length n - (bit_length m - bit_length n)"
    and rec: "divmod_rec (DivMod (m div 2 ^ e) (n div 2 ^ e)) = Some (Inr (q, r))"
      "m div 2 ^ e = q * (n div 2 ^ e) + r"
  shows "\<exists>q' r'. divmod_rec (DivMod m n) = Some (Inr (q', r')) \<and> m = q' * n + r'
           \<and> 0 \<le> r' \<and> r' < n"
proof -
  define t where "t = (push_bit e r OR m mod 2 ^ e) - n mod 2 ^ e * q"
  have t: "t = r * 2 ^ e + m mod 2 ^ e - n mod 2 ^ e * q"
    unfolding t_def by (simp add: push_or_eq_add)
  obtain q1 r1 where c1: "corr_neg n q t = Some (Inr (q1, r1))" "q1 * n + r1 = q * n + t" "0 \<le> r1"
    by (rule corr_neg_post [OF n, of q t]) blast
  obtain q2 r2 where c2: "corr_ge n q1 r1 = Some (Inr (q2, r2))" "q2 * n + r2 = q1 * n + r1"
    "r2 < n" "0 \<le> r1 \<Longrightarrow> 0 \<le> r2"
    by (rule corr_ge_post [OF n, of q1 r1]) blast
  have "divmod_rec (DivMod m n) = Some (Inr (q2, r2))"
    by (simp add: dm_short [OF b e] rec(1) c1(1) c2(1) flip: t_def)
  moreover have "m = q2 * n + r2"
  proof -
    have "q * n = q * ((n div 2 ^ e) * 2 ^ e) + q * (n mod 2 ^ e)"
      by (subst split_ident [of n e]) (simp only: distrib_left)
    then have "q * n + t = (q * (n div 2 ^ e) + r) * 2 ^ e + m mod 2 ^ e"
      unfolding t by (simp add: algebra_simps)
    also have "\<dots> = (m div 2 ^ e) * 2 ^ e + m mod 2 ^ e" by (simp only: rec(2))
    also have "\<dots> = m" by (rule div_mult_mod_eq)
    finally show ?thesis using c1(2) c2(2) by simp
  qed
  ultimately show ?thesis using c1(3) c2(3,4) by blast
qed


lemma dm_ideal_correct:
  assumes n: "0 < n" and b: "\<not> bit_length n < 10000" "bit_length m = 2 * bit_length n"
    and k: "k = bit_length n" and kf: "kf = k div 2" and kc: "kc = k - k div 2"
    and rec: "\<And>m'. \<exists>q r. divmod_rec (DivMod m' (n div 2 ^ kf)) = Some (Inr (q, r))
                \<and> m' = q * (n div 2 ^ kf) + r"
  shows "\<exists>q' r'. divmod_rec (DivMod m n) = Some (Inr (q', r')) \<and> m = q' * n + r'
           \<and> 0 \<le> r' \<and> r' < n"
proof -
  define nh where "nh = n div 2 ^ kf"
  define nl where "nl = n mod 2 ^ kf"
  define mh where "mh = m div 2 ^ k"
  define mm where "mm = (m mod 2 ^ k) div 2 ^ kc"
  define ml where "ml = (m mod 2 ^ k) mod 2 ^ kc"
  have kpos: "0 < k" using b(1) k by auto
  have ksum: "k = kf + kc" unfolding kf kc by simp
  have pk: "(2::int) ^ k = 2 ^ kf * 2 ^ kc" unfolding ksum by (simp add: power_add)
  have n_split: "n = nh * 2 ^ kf + nl" unfolding nh_def nl_def by (rule split_ident)
  have mm_bounds: "0 \<le> mm" "mm < 2 ^ kf"
  proof -
    show "0 \<le> mm" unfolding mm_def by (simp add: pos_imp_zdiv_nonneg_iff)
    have "m mod 2 ^ k < 2 ^ kf * 2 ^ kc" unfolding pk [symmetric] by simp
    then show "mm < 2 ^ kf" unfolding mm_def by (simp add: int_div_less_iff)
  qed
  have ml_bounds: "0 \<le> ml" "ml < 2 ^ kc" unfolding ml_def by simp_all
  have m_split: "m = (mh * 2 ^ kf + mm) * 2 ^ kc + ml"
  proof -
    have "m = mh * 2 ^ k + m mod 2 ^ k" unfolding mh_def by (rule split_ident)
    also have "m mod 2 ^ k = mm * 2 ^ kc + ml" unfolding mm_def ml_def by (rule split_ident)
    finally show ?thesis unfolding pk by (simp add: algebra_simps)
  qed
  have n_bounds: "n < 2 ^ k" "2 ^ (k - 1) \<le> n"
    using n bit_length_upper [of n] bit_length_lower [of n] unfolding k by simp_all
  obtain q1 r1 where d1: "divmod_rec (DivMod mh nh) = Some (Inr (q1, r1))" "mh = q1 * nh + r1"
    using rec [of mh] unfolding nh_def by blast
  define t1 where "t1 = (push_bit kf r1 OR mm) - nl * q1"
  have t1: "t1 = r1 * 2 ^ kf + mm - nl * q1"
    unfolding t1_def by (simp add: push_or_eq_add mm_bounds)
  obtain q1a r1a where c1: "corr_neg n q1 t1 = Some (Inr (q1a, r1a))"
    "q1a * n + r1a = q1 * n + t1" "0 \<le> r1a"
    by (rule corr_neg_post [OF n, of q1 t1]) blast
  have "- (2 ^ (k - 1)) < (0::int)" by simp
  then have lb: "- (2 ^ (k - 1)) < r1a" using c1(3) by linarith
  obtain q1b r1b where c2: "corr_bits k n q1a r1a = Some (Inr (q1b, r1b))"
    "q1b * n + r1b = q1a * n + r1a"
    by (rule corr_bits_post [OF n n_bounds kpos lb, of q1a]) blast
  have first: "q1b * n + r1b = mh * 2 ^ kf + mm"
  proof -
    have "q1 * n = q1 * (nh * 2 ^ kf) + q1 * nl"
      by (subst n_split) (simp only: distrib_left)
    then have "q1 * n + t1 = (q1 * nh + r1) * 2 ^ kf + mm"
      unfolding t1 by (simp add: algebra_simps)
    then show ?thesis using c1(2) c2(2) d1(2) by simp
  qed
  obtain q2 r2 where d2: "divmod_rec (DivMod r1b nh) = Some (Inr (q2, r2))" "r1b = q2 * nh + r2"
    using rec [of r1b] unfolding nh_def by blast
  define Q2 where "Q2 = (if int k AND 1 \<noteq> 0 then push_bit 1 q2 else q2)"
  define t2 where "t2 = (push_bit kc r2 OR ml) - nl * Q2"
  have t2: "t2 = r2 * 2 ^ kc + ml - nl * Q2"
    unfolding t2_def by (simp add: push_or_eq_add ml_bounds)
  obtain q2a r2a where c3: "corr_neg n Q2 t2 = Some (Inr (q2a, r2a))"
    "q2a * n + r2a = Q2 * n + t2" "0 \<le> r2a"
    by (rule corr_neg_post [OF n, of Q2 t2]) blast
  obtain q2b r2b where c4: "corr_ge n q2a r2a = Some (Inr (q2b, r2b))"
    "q2b * n + r2b = q2a * n + r2a" "r2b < n" "0 \<le> r2a \<Longrightarrow> 0 \<le> r2b"
    by (rule corr_ge_post [OF n, of q2a r2a]) blast
  have odd_test: "(int k AND 1 \<noteq> 0) = odd k"
    unfolding and_one_eq by presburger
  have shift: "Q2 * 2 ^ kf = q2 * 2 ^ kc"
  proof (cases "even k")
    case True
    then have "kc = kf" unfolding kf kc by auto
    moreover have "Q2 = q2" using True by (simp add: Q2_def odd_test)
    ultimately show ?thesis by simp
  next
    case False
    then have "kc = Suc kf" unfolding kf kc by (auto elim!: oddE)
    moreover have "Q2 = 2 * q2" using False by (simp add: Q2_def odd_test push_bit_eq_mult)
    ultimately show ?thesis by simp
  qed
  have second: "q2b * n + r2b = r1b * 2 ^ kc + ml"
  proof -
    have "Q2 * n = (Q2 * 2 ^ kf) * nh + Q2 * nl"
      by (subst n_split) (simp add: algebra_simps)
    then have "Q2 * n + t2 = (q2 * nh + r2) * 2 ^ kc + ml"
      unfolding t2 shift by (simp add: algebra_simps)
    then show ?thesis using c3(2) c4(2) d2(2) by simp
  qed
  have res: "divmod_rec (DivMod m n) = Some (Inr (push_bit kc q1b + q2b, r2b))"
    using d1(1) c1(1) c2(1) d2(1) c3(1) c4(1)
    by (simp add: dm_ideal [OF b k kf kc] flip: nh_def nl_def mh_def mm_def ml_def t1_def Q2_def t2_def)
  have "m = (q1b * n + r1b) * 2 ^ kc + ml" using m_split first by simp
  also have "\<dots> = (q1b * 2 ^ kc) * n + (r1b * 2 ^ kc + ml)" by (simp add: algebra_simps)
  also have "\<dots> = (push_bit kc q1b + q2b) * n + r2b"
    using second by (simp add: push_bit_eq_mult algebra_simps)
  finally have "m = (push_bit kc q1b + q2b) * n + r2b" .
  then show ?thesis using res c3(3) c4(3,4) by blast
qed


lemma dm_nonlong:
  assumes n: "0 < n" and nl: "bit_length n < 10000 \<or> bit_length m \<le> 2 * bit_length n"
    and IH: "\<And>m' n'. 0 < n' \<Longrightarrow> bit_length n' < bit_length n \<Longrightarrow>
       \<exists>q r. divmod_rec (DivMod m' n') = Some (Inr (q, r)) \<and> m' = q * n' + r"
  shows "\<exists>q r. divmod_rec (DivMod m n) = Some (Inr (q, r)) \<and> m = q * n + r
           \<and> (0 \<le> m \<longrightarrow> 0 \<le> r \<and> r < n)"
proof -
  consider (bail) "bit_length n < 10000"
    | (less) "\<not> bit_length n < 10000" "bit_length m < bit_length n"
    | (equal) "\<not> bit_length n < 10000" "bit_length m = bit_length n"
    | (short) "\<not> bit_length n < 10000" "bit_length n < bit_length m"
        "bit_length m < 2 * bit_length n"
    | (ideal) "\<not> bit_length n < 10000" "bit_length m = 2 * bit_length n"
    using nl by linarith
  then show ?thesis
  proof cases
    case bail
    then have "divmod_rec (DivMod m n) = Some (Inr (m div n, m mod n))"
      using n by (simp add: dm_bailout py_divmod_def)
    moreover have "m = (m div n) * n + m mod n" by simp
    moreover have "0 \<le> m mod n" "m mod n < n" using n by simp_all
    ultimately show ?thesis by blast
  next
    case less
    have "0 \<le> m \<longrightarrow> m < n" using bit_length_less_imp_less [OF n less(2)] by linarith
    then show ?thesis by (simp add: dm_less [OF less])
  next
    case equal
    obtain q' r' where "corr_ge n 0 m = Some (Inr (q', r'))" "q' * n + r' = 0 * n + m" "r' < n"
      "0 \<le> m \<Longrightarrow> 0 \<le> r'"
      by (rule corr_ge_post [OF n, of 0 m]) blast
    then show ?thesis by (auto simp: dm_equal [OF equal])
  next
    case short
    define e where "e = bit_length n - (bit_length m - bit_length n)"
    have e: "0 < e" "e < bit_length n" using short(2,3) unfolding e_def by linarith+
    have "0 < n div 2 ^ e" "bit_length (n div 2 ^ e) < bit_length n"
      using hi_part_pos [OF n e(2)] e by simp_all
    then obtain q r where "divmod_rec (DivMod (m div 2 ^ e) (n div 2 ^ e)) = Some (Inr (q, r))"
      "m div 2 ^ e = q * (n div 2 ^ e) + r"
      using IH by blast
    then show ?thesis using dm_short_correct [OF n short e_def] by blast
  next
    case ideal
    define k where "k = bit_length n"
    define kf where "kf = k div 2"
    define kc where "kc = k - k div 2"
    have kf: "0 < kf" "kf < bit_length n" using ideal(1) unfolding kf_def k_def by linarith+
    have "0 < n div 2 ^ kf" "bit_length (n div 2 ^ kf) < bit_length n"
      using hi_part_pos [OF n kf(2)] kf by simp_all
    then have "\<exists>q r. divmod_rec (DivMod m' (n div 2 ^ kf)) = Some (Inr (q, r))
                \<and> m' = q * (n div 2 ^ kf) + r" for m'
      using IH by blast
    then show ?thesis using dm_ideal_correct [OF n ideal k_def kf_def kc_def] by blast
  qed
qed

lemma longdiv_correct:
  assumes n: "0 < n"
    and ex: "\<And>m'. 0 \<le> m' \<Longrightarrow> bit_length m' \<le> 2 * bit_length n \<Longrightarrow>
       \<exists>q r. divmod_rec (DivMod m' n) = Some (Inr (q, r)) \<and> m' = q * n + r \<and> 0 \<le> r \<and> r < n"
  shows "bit_length r - 2 * bit_length n \<le> rb \<Longrightarrow>
    \<exists>q' r'. divmod_rec (LongDiv n q r rb) = Some (Inr (q', r'))
       \<and> q' * n + r' = push_bit rb q * n + r
       \<and> (0 \<le> r \<longrightarrow> 0 \<le> r' \<and> r' \<le> n) \<and> (0 \<le> q \<and> 0 \<le> r \<longrightarrow> 0 \<le> q')"
proof (induction "nat r" arbitrary: q r rb rule: less_induct)
  case less
  show ?case
  proof (cases "n < r")
    case False
    then show ?thesis by (simp add: longdiv_exit)
  next
    case True
    define nb where "nb = bit_length r - 2 * bit_length n"
    define rh where "rh = r div 2 ^ nb"
    define rl where "rl = r mod 2 ^ nb"
    have rpos: "0 < r" using n True by linarith
    have nb_le: "nb \<le> rb" using less.prems unfolding nb_def .
    have rh_nn: "0 \<le> rh" unfolding rh_def using rpos by (simp add: pos_imp_zdiv_nonneg_iff)
    have rh_len: "bit_length rh = bit_length r - nb"
      unfolding rh_def using bit_length_drop_bit [of r nb] rpos by (simp add: drop_bit_eq_div)
    then have rh_le: "bit_length rh \<le> 2 * bit_length n" unfolding nb_def by linarith
    have rh_ge: "n \<le> rh"
    proof (cases "nb = 0")
      case True
      then show ?thesis unfolding rh_def using \<open>n < r\<close> by simp
    next
      case False
      then have "bit_length rh = 2 * bit_length n" using rh_len unfolding nb_def by linarith
      moreover have "0 < bit_length n" using n bit_length_eq_0_iff [of n] by auto
      ultimately have "bit_length n < bit_length rh" by linarith
      then have "n < 2 ^ bit_length n" "2 ^ bit_length n \<le> \<bar>rh\<bar>"
        using bit_length_upper [of n] n by (simp_all add: bit_length_gt_iff)
      then show ?thesis using rh_nn by linarith
    qed
    obtain qi r' where d: "divmod_rec (DivMod rh n) = Some (Inr (qi, r'))" "rh = qi * n + r'"
      "0 \<le> r'" "r' < n"
      using ex [OF rh_nn rh_le] by blast
    have rl_bounds: "0 \<le> rl" "rl < 2 ^ nb" unfolding rl_def by simp_all
    define r2 where "r2 = push_bit nb r' OR rl"
    have r2: "r2 = r' * 2 ^ nb + rl" unfolding r2_def by (simp add: push_or_eq_add rl_bounds)
    have r_split: "r = rh * 2 ^ nb + rl" unfolding rh_def rl_def by (rule split_ident)
    have qi_pos: "1 \<le> qi"
    proof (rule ccontr)
      assume "\<not> 1 \<le> qi"
      then have "qi \<le> 0" by simp
      then have "qi * n \<le> 0" using n by (simp add: mult_le_0_iff)
      then show False using d(2,4) rh_ge by linarith
    qed
    have r2_nn: "0 \<le> r2" unfolding r2 using d(3) rl_bounds(1) by simp
    have r2_lt: "r2 < r"
    proof -
      have "1 * n \<le> qi * n" using qi_pos n by (intro mult_right_mono) simp_all
      then have "r' < rh" using d(2) n by linarith
      then have "r' * 2 ^ nb < rh * 2 ^ nb" by simp
      then show ?thesis unfolding r2 r_split by simp
    qed
    have dec: "nat r2 < nat r" using r2_nn r2_lt by linarith
    have "bit_length r2 \<le> bit_length r" using r2_nn r2_lt by (intro bit_length_mono) simp
    then have pre: "bit_length r2 - 2 * bit_length n \<le> nb" unfolding nb_def by linarith
    define q2 where "q2 = push_bit (rb - nb) q + qi"
    obtain q' r'' where IH: "divmod_rec (LongDiv n q2 r2 nb) = Some (Inr (q', r''))"
      "q' * n + r'' = push_bit nb q2 * n + r2"
      "0 \<le> r2 \<longrightarrow> 0 \<le> r'' \<and> r'' \<le> n" "0 \<le> q2 \<and> 0 \<le> r2 \<longrightarrow> 0 \<le> q'"
      using less.hyps [OF dec pre, of q2] by blast
    have step: "divmod_rec (LongDiv n q r rb) = Some (Inr (q', r''))"
      using d(1) IH(1)
      by (simp add: longdiv_step [OF True nb_def nb_le] flip: rh_def rl_def r2_def q2_def)
    have "(2::int) ^ rb = 2 ^ (rb - nb) * 2 ^ nb"
      using nb_le by (simp flip: power_add)
    then have "push_bit nb q2 * n + r2 = push_bit rb q * n + (qi * n + r') * 2 ^ nb + rl"
      unfolding q2_def r2 by (simp add: push_bit_eq_mult algebra_simps)
    also have "\<dots> = push_bit rb q * n + r" using d(2) r_split by simp
    finally have ident: "q' * n + r'' = push_bit rb q * n + r" using IH(2) by simp
    have "0 \<le> q \<longrightarrow> 0 \<le> q2" unfolding q2_def using qi_pos by (simp add: push_bit_eq_mult)
    then show ?thesis using step ident IH(3,4) r2_nn by blast
  qed
qed

lemma dm_total:
  "0 < n \<Longrightarrow> \<exists>q r. divmod_rec (DivMod m n) = Some (Inr (q, r)) \<and> m = q * n + r
      \<and> (0 \<le> m \<longrightarrow> 0 \<le> q \<and> 0 \<le> r \<and> r \<le> n)
      \<and> (0 \<le> m \<and> (bit_length n < 10000 \<or> bit_length m \<le> 2 * bit_length n) \<longrightarrow> r < n)"
proof (induction "bit_length n" arbitrary: m n rule: less_induct)
  case less
  note n = \<open>0 < n\<close>
  have IH: "\<exists>q r. divmod_rec (DivMod m' n') = Some (Inr (q, r)) \<and> m' = q * n' + r"
    if "0 < n'" "bit_length n' < bit_length n" for m' n'
    using less.hyps [OF that(2,1), of m'] by blast
  have small: "\<exists>q r. divmod_rec (DivMod m' n) = Some (Inr (q, r)) \<and> m' = q * n + r
           \<and> (0 \<le> m' \<longrightarrow> 0 \<le> r \<and> r < n)"
    if "bit_length n < 10000 \<or> bit_length m' \<le> 2 * bit_length n" for m'
    using dm_nonlong [OF n that IH] by blast
  have qnn: "0 \<le> q" if "m' = q * n + r" "0 \<le> m'" "r \<le> n" "0 \<le> r" "r < n \<or> 0 \<le> q" for m' q r
  proof (rule ccontr)
    assume "\<not> 0 \<le> q"
    then have "q \<le> - 1" "r < n" using that(5) by auto
    then have "q * n \<le> - 1 * n" using n by (intro mult_right_mono) simp_all
    then show False using that(1,2) \<open>r < n\<close> by linarith
  qed
  show ?case
  proof (cases "bit_length n < 10000 \<or> bit_length m \<le> 2 * bit_length n")
    case True
    obtain q r where "divmod_rec (DivMod m n) = Some (Inr (q, r))" "m = q * n + r"
      "0 \<le> m \<longrightarrow> 0 \<le> r \<and> r < n"
      using small [OF True] by blast
    moreover from this have "0 \<le> m \<longrightarrow> 0 \<le> q" using qnn [of m q r] by auto
    ultimately show ?thesis by force
  next
    case False
    then have b: "\<not> bit_length n < 10000" "2 * bit_length n < bit_length m" by linarith+
    have ex: "\<exists>q r. divmod_rec (DivMod m' n) = Some (Inr (q, r)) \<and> m' = q * n + r
        \<and> 0 \<le> r \<and> r < n" if "0 \<le> m'" "bit_length m' \<le> 2 * bit_length n" for m'
      using small [of m'] that by blast
    obtain q' r' where "divmod_rec (LongDiv n 0 m (bit_length m - 2 * bit_length n))
        = Some (Inr (q', r'))"
      "q' * n + r' = push_bit (bit_length m - 2 * bit_length n) 0 * n + m"
      "0 \<le> m \<longrightarrow> 0 \<le> r' \<and> r' \<le> n" "(0::int) \<le> 0 \<and> 0 \<le> m \<longrightarrow> 0 \<le> q'"
      using longdiv_correct [OF n ex, of m "bit_length m - 2 * bit_length n" 0] by blast
    then show ?thesis using False by (simp add: dm_long [OF b])
  qed
qed

subsection \<open>What the kernel returns\<close>


lemma dm_exact:
  assumes "0 < n" "0 \<le> m" "bit_length n < 10000 \<or> bit_length m \<le> 2 * bit_length n"
  shows "divmod_rec (DivMod m n) = Some (Inr (m div n, m mod n))"
proof -
  obtain q r where qr: "divmod_rec (DivMod m n) = Some (Inr (q, r))" "m = q * n + r"
    "0 \<le> r" "r < n"
    using dm_total [OF assms(1), of m] assms(2,3) by blast
  have "q = m div n" using qr(2-4) assms(1)
    by (metis div_pos_pos_trivial add.commute div_mult_self3 add.right_neutral less_irrefl)
  moreover have "r = m mod n" using qr(2-4) by (simp add: mod_pos_pos_trivial)
  ultimately show ?thesis using qr(1) by simp
qed

text \<open>An odd multiple of the divisor that is one bit longer than twice the divisor.\<close>

lemma long_division_slip:
  assumes n: "0 < n" and b: "\<not> bit_length n < 10000"
    and m: "m = (2 * c + 1) * n" and c: "0 \<le> c"
    and len: "bit_length m = 2 * bit_length n + 1"
  shows "divModPositiveArgs m n = Some (Inr (2 * c, n))"
proof -
  have mpos: "0 < m" unfolding m using n c by simp
  have rb: "bit_length m - 2 * bit_length n = 1" using len by simp
  have lt: "n < m"
  proof -
    have "bit_length n < bit_length m" using len by linarith
    then show ?thesis using bit_length_less_imp_less [OF mpos, of n] n by linarith
  qed
  have half: "m div 2 = c * n + n div 2"
  proof -
    have "m = n + (c * n) * 2" unfolding m by (simp add: algebra_simps)
    then have "m div 2 = n div 2 + c * n" by (simp only: div_mult_self1)
    then show ?thesis by simp
  qed
  have par: "m mod 2 = n mod 2"
  proof -
    have "m = n + (c * n) * 2" unfolding m by (simp add: algebra_simps)
    then show ?thesis by (simp only: mod_mult_self1)
  qed
  have h_nn: "0 \<le> m div 2" using mpos by simp
  have h_len: "bit_length (m div 2) \<le> 2 * bit_length n"
    using bit_length_drop_bit [of m 1] mpos len by (simp add: drop_bit_eq_div)
  have nh: "0 \<le> n div 2" "n div 2 < n" using n by simp_all
  have "(m div 2) div n = c"
    unfolding half using n nh by (simp add: div_pos_pos_trivial)
  moreover have "(m div 2) mod n = n div 2"
    unfolding half using n nh by (simp add: mod_pos_pos_trivial)
  ultimately have inner: "divmod_rec (DivMod (m div 2) n) = Some (Inr (c, n div 2))"
    using dm_exact [OF n h_nn] h_len by simp
  have glue: "push_bit 1 (n div 2) OR m mod 2 = n"
  proof -
    have "push_bit 1 (n div 2) OR m mod 2 = (n div 2) * 2 ^ 1 + m mod 2"
      by (rule push_or_eq_add) simp_all
    then show ?thesis unfolding par by simp
  qed
  have "divModPositiveArgs m n = divmod_rec (LongDiv n 0 m 1)"
    unfolding divModPositiveArgs_def using dm_long [OF b, of m] len rb by simp
  also have "\<dots> = divmod_rec (LongDiv n (push_bit (1 - 1) 0 + c) (push_bit 1 (n div 2) OR m mod 2 ^ 1) 1)"
    using longdiv_step [OF lt, of 1 1 0] rb inner by simp
  also have "\<dots> = divmod_rec (LongDiv n c n 1)" using glue by simp
  also have "\<dots> = Some (Inr (push_bit 1 c, n))" by (simp add: longdiv_exit)
  finally show ?thesis by (simp add: push_bit_eq_mult)
qed

lemma bit_length_pow2_sum:
  assumes "a < b"
  shows "bit_length (2 ^ b + 2 ^ a) = Suc b"
proof (rule bit_length_eqI)
  show "2 ^ b \<le> \<bar>(2::int) ^ b + 2 ^ a\<bar>" by simp
  have "(2::int) ^ a < 2 ^ b" using assms by simp
  then show "\<bar>(2::int) ^ b + 2 ^ a\<bar> < 2 ^ Suc b" by simp
qed

lemma slip_at_powers:
  assumes "\<not> Suc a < 10000"
  shows "divModPositiveArgs (2 ^ (2 * a + 2) + 2 ^ a) (2 ^ a) = Some (Inr (2 ^ (a + 2), 2 ^ a))"
proof -
  have "divModPositiveArgs (2 ^ (2 * a + 2) + 2 ^ a) (2 ^ a)
      = Some (Inr (2 * 2 ^ (a + 1), 2 ^ a))"
  proof (rule long_division_slip)
    show "(0::int) < 2 ^ a" by simp
    show "\<not> bit_length (2 ^ a) < 10000" using assms by (simp add: bit_length_pow2)
    show "(2::int) ^ (2 * a + 2) + 2 ^ a = (2 * 2 ^ (a + 1) + 1) * 2 ^ a"
      by (simp add: algebra_simps flip: power_add)
    show "(0::int) \<le> 2 ^ (a + 1)" by simp
    show "bit_length (2 ^ (2 * a + 2) + 2 ^ a) = 2 * bit_length (2 ^ a) + 1"
    proof -
      have "a < 2 * a + 2" by simp
      then have "bit_length (2 ^ (2 * a + 2) + 2 ^ a) = Suc (2 * a + 2)"
        by (rule bit_length_pow2_sum)
      then show ?thesis by (simp only: bit_length_pow2) simp
    qed
  qed
  then show ?thesis by simp
qed

lemma slip_concrete:
  "divModPositiveArgs (2 ^ 20000 + 2 ^ 9999) (2 ^ 9999) = Some (Inr (2 ^ 10001, 2 ^ 9999))"
proof -
  have e: "2 * 9999 + 2 = (20000::nat)" "9999 + 2 = (10001::nat)" by simp_all
  have "\<not> Suc 9999 < 10000" by simp
  from slip_at_powers [OF this] show ?thesis unfolding e .
qed


lemma fastBigIntDivMod_pos:
  "0 < m \<Longrightarrow> 0 < n \<Longrightarrow>
   fastBigIntDivMod (IntV m) (IntV n)
     = bindR (divModPositiveArgs m n) (\<lambda>(q, r). Some (Inr (IntV q, IntV r)))"
  by (simp add: fastBigIntDivMod_def isinstance_int_def int_of_def)

lemma pow_sum_divmod:
  assumes "a < b"
  shows "((2::int) ^ b + 2 ^ a) div 2 ^ a = 2 ^ (b - a) + 1" "((2::int) ^ b + 2 ^ a) mod 2 ^ a = 0"
proof -
  have "(2::int) ^ b = 2 ^ (b - a) * 2 ^ a" using assms by (simp flip: power_add)
  then have eq: "(2::int) ^ b + 2 ^ a = (2 ^ (b - a) + 1) * 2 ^ a" by (simp add: algebra_simps)
  show "((2::int) ^ b + 2 ^ a) div 2 ^ a = 2 ^ (b - a) + 1" unfolding eq by simp
  show "((2::int) ^ b + 2 ^ a) mod 2 ^ a = 0" unfolding eq by simp
qed

lemma wrapper_at_slip:
  "fastBigIntDivMod (IntV (2 ^ 20000 + 2 ^ 9999)) (IntV (2 ^ 9999))
     = Some (Inr (IntV (2 ^ 10001), IntV (2 ^ 9999)))
   \<and> py_divmod (2 ^ 20000 + 2 ^ 9999) (2 ^ 9999) = Some (Inr (2 ^ 10001 + 1, 0))"
proof
  have p: "(0::int) < 2 ^ 20000 + 2 ^ 9999" "(0::int) < 2 ^ 9999"
    by (simp_all del: power_numeral add: add_pos_pos)
  show "fastBigIntDivMod (IntV (2 ^ 20000 + 2 ^ 9999)) (IntV (2 ^ 9999))
     = Some (Inr (IntV (2 ^ 10001), IntV (2 ^ 9999)))"
    by (simp only: fastBigIntDivMod_pos [OF p] slip_concrete)
       (simp del: power_numeral)
  have e: "20000 - 9999 = (10001::nat)" by simp
  have "(9999::nat) < 20000" by simp
  from pow_sum_divmod [OF this] p(2)
  show "py_divmod (2 ^ 20000 + 2 ^ 9999) (2 ^ 9999) = Some (Inr (2 ^ 10001 + 1, 0))"
    unfolding py_divmod_def e by (simp del: power_numeral)
qed


subsection \<open>Square root\<close>

lemma shl1_or_1: "push_bit 1 (a::int) OR 1 = 2 * a + 1"
proof -
  have "push_bit 1 a OR 1 = a * 2 ^ 1 + 1" by (rule push_or_eq_add) simp_all
  then show ?thesis by simp
qed

lemma sqrt_brute_correct:
  "0 \<le> s \<Longrightarrow> s * s \<le> n \<Longrightarrow>
   \<exists>t. sqrt_brute n s = Some (Inr t) \<and> s \<le> t \<and> t * t \<le> n \<and> n < (t + 1) * (t + 1)"
proof (induction "nat (n - s)" arbitrary: s rule: less_induct)
  case less
  show ?case
  proof (cases "(s + 1) * (s + 1) \<le> n")
    case False
    then have "sqrt_brute n s = Some (Inr s)" by (subst sqrt_brute.simps) simp
    then show ?thesis using less.prems False by auto
  next
    case True
    have "s + 1 \<le> (s + 1) * (s + 1)" using less.prems(1) by (simp add: algebra_simps)
    then have "s + 1 \<le> n" using True by linarith
    then have dec: "nat (n - (s + 1)) < nat (n - s)" by linarith
    obtain t where "sqrt_brute n (s + 1) = Some (Inr t)" "s + 1 \<le> t" "t * t \<le> n"
      "n < (t + 1) * (t + 1)"
      using less.hyps [OF dec _ True] less.prems(1) by auto
    moreover have "sqrt_brute n s = sqrt_brute n (s + 1)"
      using True by (subst sqrt_brute.simps) simp
    ultimately show ?thesis by auto
  qed
qed

lemma sqrt_down_correct:
  "0 \<le> a \<Longrightarrow> 0 \<le> n \<Longrightarrow> sq = a * a \<Longrightarrow> n < (a + 1) * (a + 1) \<Longrightarrow>
   \<exists>t. sqrt_down n a sq = Some (Inr t) \<and> 0 \<le> t \<and> t * t \<le> n \<and> n < (t + 1) * (t + 1)"
proof (induction "nat a" arbitrary: a sq rule: less_induct)
  case less
  show ?case
  proof (cases "sq > n")
    case False
    then have "sqrt_down n a sq = Some (Inr a)" by (subst sqrt_down.simps) simp
    then show ?thesis using less.prems False by auto
  next
    case True
    have "a \<noteq> 0" using True less.prems(2,3) by auto
    then have a1: "0 \<le> a - 1" using less.prems(1) by linarith
    then have dec: "nat (a - 1) < nat a" by linarith
    have sq': "sq - (push_bit 1 (a - 1) OR 1) = (a - 1) * (a - 1)"
      unfolding shl1_or_1 less.prems(3) by (simp add: algebra_simps)
    have "n < (a - 1 + 1) * (a - 1 + 1)" using True less.prems(3) by simp
    from less.hyps [OF dec a1 less.prems(2) sq' this]
    obtain t where "sqrt_down n (a - 1) (sq - (push_bit 1 (a - 1) OR 1)) = Some (Inr t)"
      "0 \<le> t" "t * t \<le> n" "n < (t + 1) * (t + 1)" by blast
    moreover have "sqrt_down n a sq = sqrt_down n (a - 1) (sq - (push_bit 1 (a - 1) OR 1))"
      using True by (subst sqrt_down.simps) (simp add: Let_def)
    ultimately show ?thesis by auto
  qed
qed

lemma sqrt_up_correct:
  "0 \<le> a \<Longrightarrow> a * a \<le> n \<Longrightarrow> sq = (a + 1) * (a + 1) \<Longrightarrow>
   \<exists>t. sqrt_up n a sq = Some (Inr t) \<and> 0 \<le> t \<and> t * t \<le> n \<and> n < (t + 1) * (t + 1)"
proof (induction "nat (n - a)" arbitrary: a sq rule: less_induct)
  case less
  show ?case
  proof (cases "sq \<le> n")
    case False
    then have "sqrt_up n a sq = Some (Inr a)" by (subst sqrt_up.simps) simp
    then show ?thesis using less.prems False by auto
  next
    case True
    have "a + 1 \<le> (a + 1) * (a + 1)" using less.prems(1) by (simp add: algebra_simps)
    then have "a + 1 \<le> n" using True less.prems(3) by linarith
    then have dec: "nat (n - (a + 1)) < nat (n - a)" by linarith
    have a1: "0 \<le> a + 1" using less.prems(1) by simp
    have le: "(a + 1) * (a + 1) \<le> n" using True less.prems(3) by simp
    have sq': "sq + (push_bit 1 (a + 1) OR 1) = (a + 1 + 1) * (a + 1 + 1)"
      unfolding shl1_or_1 less.prems(3) by (simp add: algebra_simps)
    from less.hyps [OF dec a1 le sq']
    obtain t where "sqrt_up n (a + 1) (sq + (push_bit 1 (a + 1) OR 1)) = Some (Inr t)"
      "0 \<le> t" "t * t \<le> n" "n < (t + 1) * (t + 1)" by blast
    moreover have "sqrt_up n a sq = sqrt_up n (a + 1) (sq + (push_bit 1 (a + 1) OR 1))"
      using True by (subst sqrt_up.simps) (simp add: Let_def)
    ultimately show ?thesis by auto
  qed
qed


lemma kernel_total:
  assumes "0 < n"
  obtains q r where "divModPositiveArgs m n = Some (Inr (q, r))" "m = q * n + r"
    "0 \<le> m \<Longrightarrow> 0 \<le> q" "0 \<le> m \<Longrightarrow> 0 \<le> r" "0 \<le> m \<Longrightarrow> r \<le> n"
  using dm_total [OF assms, of m] unfolding divModPositiveArgs_def by blast

lemma sqrt_pad_arg:
  assumes "0 \<le> n" "8 \<le> bit_length n"
  shows "8 \<le> drop_bit (2 * (bit_length n div 4)) n"
    and "drop_bit (2 * (bit_length n div 4)) n < n"
proof -
  define p where "p = 2 * (bit_length n div 4)"
  have npos: "0 < n" using assms bit_length_eq_0_iff [of n] by (cases "n = 0") auto
  have p: "4 \<le> p" "p + 4 \<le> bit_length n" using assms(2) unfolding p_def by presburger+
  have "bit_length (drop_bit p n) = bit_length n - p" using assms(1) by (rule bit_length_drop_bit)
  then have "3 < bit_length (drop_bit p n)" using p by linarith
  then have "2 ^ 3 \<le> \<bar>drop_bit p n\<bar>" by (simp only: bit_length_gt_iff)
  moreover have "0 \<le> drop_bit p n" using assms(1) by simp
  ultimately show "8 \<le> drop_bit (2 * (bit_length n div 4)) n" unfolding p_def by simp
  have "(1::int) < 2 ^ p" using p(1) by (simp add: one_less_power)
  then have "n div 2 ^ p < n" using npos by (rule int_div_less_self [rotated])
  then show "drop_bit (2 * (bit_length n div 4)) n < n" unfolding p_def drop_bit_eq_div .
qed

lemma fs_small:
  "bit_length (int_of nv) \<le> 1 \<Longrightarrow> floorSqrtPositiveInt nv = Some (Inr nv)"
  by (subst floorSqrtPositiveInt.simps) simp

lemma fs_brute:
  "\<not> bit_length (int_of nv) \<le> 1 \<Longrightarrow> bit_length (int_of nv) < 8 \<Longrightarrow>
   floorSqrtPositiveInt nv = bindR (sqrt_brute (int_of nv) 1) (\<lambda>s. Some (Inr (IntV s)))"
  by (subst floorSqrtPositiveInt.simps) simp

lemma fs_newton:
  assumes "\<not> bit_length n < 8"
    and "floorSqrtPositiveInt (IntV (drop_bit (2 * (bit_length n div 4)) n)) = Some (Inr (IntV s))"
    and "divModPositiveArgs n (push_bit (bit_length n div 4) s) = Some (Inr (q, r))"
    and "a = drop_bit 1 (push_bit (bit_length n div 4) s + q)"
  shows "floorSqrtPositiveInt (IntV n) =
    (if a * a > n then
       bindR (sqrt_down n (a - 1) (a * a - (push_bit 1 (a - 1) OR 1))) (\<lambda>t. Some (Inr (IntV t)))
     else
       bindR (sqrt_up n a (a * a + (push_bit 1 a OR 1))) (\<lambda>t. Some (Inr (IntV t))))"
  using assms(1) unfolding assms(4)
  by (subst floorSqrtPositiveInt.simps) (simp add: Let_def int_of_def assms(2,3))

lemma floorSqrt_correct:
  "0 \<le> n \<Longrightarrow> \<exists>s. floorSqrtPositiveInt (IntV n) = Some (Inr (IntV s))
      \<and> 0 \<le> s \<and> s * s \<le> n \<and> n < (s + 1) * (s + 1)"
proof (induction "nat n" arbitrary: n rule: less_induct)
  case less
  consider (small) "bit_length n \<le> 1" | (brute) "\<not> bit_length n \<le> 1" "bit_length n < 8"
    | (newton) "8 \<le> bit_length n" by linarith
  then show ?case
  proof cases
    case small
    then have "\<bar>n\<bar> < 2 ^ 1" by (simp only: bit_length_le_iff)
    then have "n = 0 \<or> n = 1" using less.prems by auto
    moreover have "floorSqrtPositiveInt (IntV n) = Some (Inr (IntV n))"
      using small by (simp add: fs_small int_of_def)
    ultimately show ?thesis by auto
  next
    case brute
    then have "1 < bit_length n" by linarith
    then have "2 ^ 1 \<le> \<bar>n\<bar>" by (simp only: bit_length_gt_iff)
    then have "(1::int) * 1 \<le> n" using less.prems by simp
    then obtain t where "sqrt_brute n 1 = Some (Inr t)" "1 \<le> t" "t * t \<le> n"
      "n < (t + 1) * (t + 1)"
      using sqrt_brute_correct [of 1 n] by auto
    then show ?thesis using brute by (simp add: fs_brute int_of_def)
  next
    case newton
    define n' where "n' = drop_bit (2 * (bit_length n div 4)) n"
    have n': "8 \<le> n'" "n' < n" unfolding n'_def using sqrt_pad_arg [OF less.prems newton] by auto
    then have "nat n' < nat n" "0 \<le> n'" by linarith+
    then obtain s where s: "floorSqrtPositiveInt (IntV n') = Some (Inr (IntV s))" "0 \<le> s"
      "n' < (s + 1) * (s + 1)"
      using less.hyps [of n'] by blast
    have "1 \<le> s"
    proof (rule ccontr)
      assume "\<not> 1 \<le> s"
      then have "s = 0" using s(2) by simp
      then show False using s(3) n'(1) by simp
    qed
    define ap where "ap = push_bit (bit_length n div 4) s"
    have "1 * 1 \<le> s * 2 ^ (bit_length n div 4)"
      using \<open>1 \<le> s\<close> by (intro mult_mono) simp_all
    then have ap: "0 < ap" unfolding ap_def push_bit_eq_mult by simp
    obtain q r where qr: "divModPositiveArgs n ap = Some (Inr (q, r))" "0 \<le> q"
      using kernel_total [OF ap, of n] less.prems by blast
    define a where "a = drop_bit 1 (ap + q)"
    have a: "0 \<le> a" unfolding a_def using ap qr(2) by simp
    have nb: "\<not> bit_length n < 8" using newton by simp
    note eq = fs_newton [OF nb s(1) [unfolded n'_def] qr(1) [unfolded ap_def] a_def [unfolded ap_def]]
    show ?thesis
    proof (cases "a * a > n")
      case True
      have "a \<noteq> 0" using True less.prems by auto
      then have a1: "0 \<le> a - 1" using a by linarith
      have sq: "a * a - (push_bit 1 (a - 1) OR 1) = (a - 1) * (a - 1)"
        unfolding shl1_or_1 by (simp add: algebra_simps)
      have "n < (a - 1 + 1) * (a - 1 + 1)" using True by simp
      from sqrt_down_correct [OF a1 less.prems sq this]
      show ?thesis using True by (auto simp: eq)
    next
      case False
      then have le: "a * a \<le> n" by simp
      have sq: "a * a + (push_bit 1 a OR 1) = (a + 1) * (a + 1)"
        unfolding shl1_or_1 by (simp add: algebra_simps)
      from sqrt_up_correct [OF a le sq]
      show ?thesis using False by (auto simp: eq)
    qed
  qed
qed

lemma corr_neg_no_error:
  assumes "corr_neg n q r = Some y" shows "\<exists>v. y = Inr v"
  by (rule corr_neg.raw_induct [where P = "\<lambda>n q r y. \<exists>v. y = Inr v", OF _ assms])
     (auto split: if_splits)

lemma corr_ge_no_error:
  assumes "corr_ge n q r = Some y" shows "\<exists>v. y = Inr v"
  by (rule corr_ge.raw_induct [where P = "\<lambda>n q r y. \<exists>v. y = Inr v", OF _ assms])
     (auto split: if_splits)

lemma corr_bits_no_error:
  assumes "corr_bits k n q r = Some y" shows "\<exists>v. y = Inr v"
  by (rule corr_bits.raw_induct [where P = "\<lambda>k n q r y. \<exists>v. y = Inr v", OF _ assms])
     (auto split: if_splits)

lemma bindR_errorE:
  assumes "bindR x f = Some (Inl e)"
  obtains "x = Some (Inl e)" | a where "x = Some (Inr a)" "f a = Some (Inl e)"
  using assms by (cases x) (auto split: sum.splits)

lemma corr_never_raise [simp]:
  "corr_neg n q r \<noteq> Some (Inl e)" "corr_ge n q r \<noteq> Some (Inl e)"
  "corr_bits k n q r \<noteq> Some (Inl e)"
  using corr_neg_no_error [of n q r "Inl e"] corr_ge_no_error [of n q r "Inl e"]
    corr_bits_no_error [of k n q r "Inl e"] by auto

lemma divmod_rec_no_type_error:
  assumes "divmod_rec c = Some y"
  shows "y \<noteq> Inl TypeError"
  apply (rule divmod_rec.raw_induct [where P = "\<lambda>c y. y \<noteq> Inl TypeError", OF _ assms])
  subgoal premises prems for f c y
  proof
    assume y: "y = Inl TypeError"
    have IH [simp]: "f x \<noteq> Some (Inl TypeError)" for x using prems(1) [of x] by auto
    show False
      using prems(2) unfolding y
      by (cases c)
         (auto simp: Let_def py_divmod_def split: prod.splits if_splits elim!: bindR_errorE)
  qed
  done

lemma kernel_no_type_error [simp]: "divModPositiveArgs m n \<noteq> Some (Inl TypeError)"
  using divmod_rec_no_type_error [of "DivMod m n" "Inl TypeError"]
  unfolding divModPositiveArgs_def by auto

lemma py_index_error: "py_index xs i = Inl e \<Longrightarrow> e = IndexError"
  by (auto simp: py_index_def split: if_splits)

lemma powers_loop_no_type_error:
  assumes "powers_loop ps n = Some y"
  shows "y \<noteq> Inl TypeError"
  apply (rule powers_loop.raw_induct [where P = "\<lambda>ps n y. y \<noteq> Inl TypeError", OF _ assms])
  subgoal premises prems for f ps n y
    using prems(2) prems(1)
    by (auto split: sum.splits if_splits dest: py_index_error)
  done

lemma helper_no_type_error:
  assumes "toBase10StringHelper v ps d = Some y"
  shows "y \<noteq> Inl TypeError"
  apply (rule toBase10StringHelper.raw_induct [where P = "\<lambda>v ps d y. y \<noteq> Inl TypeError",
        OF _ assms])
  subgoal premises prems for f v ps d y
  proof
    assume y: "y = Inl TypeError"
    have IH [simp]: "f a b c \<noteq> Some (Inl TypeError)" for a b c using prems(1) [of a b c] by auto
    show False
      using prems(2) unfolding y
      by (auto simp: Let_def split: prod.splits if_splits sum.splits
            elim!: bindR_errorE dest: py_index_error)
  qed
  done

lemma strip_no_type_error [simp]: "strip_leading_zeros s \<noteq> Some (Inl TypeError)"
  by (simp add: strip_leading_zeros_def split: option.splits)

lemma strBase10_type_error_only_if:
  assumes "fastBigIntStrBase10 v = Some y"
  shows "y = Inl TypeError \<longrightarrow> \<not> isinstance_int v"
  apply (rule fastBigIntStrBase10.raw_induct
        [where P = "\<lambda>v y. y = Inl TypeError \<longrightarrow> \<not> isinstance_int v", OF _ assms])
  subgoal premises prems for f v y
  proof
    assume y: "y = Inl TypeError"
    have IH: "f (IntV a) \<noteq> Some (Inl TypeError)" for a
      using prems(1) [of "IntV a"] by (auto simp: isinstance_int_def)
    have P [simp]: "powers_loop ps n \<noteq> Some (Inl TypeError)" for ps n
      using powers_loop_no_type_error [of ps n] by auto
    have H [simp]: "toBase10StringHelper a ps d \<noteq> Some (Inl TypeError)" for a ps d
      using helper_no_type_error [of a ps d] by auto
    show "\<not> isinstance_int v"
      using prems(2) IH unfolding y
      by (auto split: if_splits elim!: bindR_errorE)
  qed
  done

lemma strBase10_type_error_iff:
  "fastBigIntStrBase10 v = Some (Inl TypeError) \<longleftrightarrow> \<not> isinstance_int v"
proof
  assume "fastBigIntStrBase10 v = Some (Inl TypeError)"
  then show "\<not> isinstance_int v" using strBase10_type_error_only_if by blast
next
  assume "\<not> isinstance_int v"
  then show "fastBigIntStrBase10 v = Some (Inl TypeError)"
    by (subst fastBigIntStrBase10.simps) simp
qed

lemma kernel_zero_divisor:
  "bit_length 0 < 10000" "divModPositiveArgs m 0 = py_divmod m 0"
  "py_divmod m 0 = Some (Inl ZeroDivisionError)"
  by (simp_all add: divModPositiveArgs_def dm_bailout py_divmod_def)

lemma wrapper_returns:
  assumes "isinstance_int mv" "isinstance_int nv" "int_of nv \<noteq> 0"
  shows "\<exists>q r. fastBigIntDivMod mv nv = Some (Inr (IntV q, IntV r))"
proof -
  have "0 < \<bar>int_of nv\<bar>" using assms(3) by simp
  then obtain q r where "divModPositiveArgs \<bar>int_of mv\<bar> \<bar>int_of nv\<bar> = Some (Inr (q, r))"
    by (rule kernel_total)
  then show ?thesis using assms(1,2) by (simp add: fastBigIntDivMod_def Let_def)
qed

lemma wrapper_zero_divisor:
  assumes "isinstance_int mv" "isinstance_int nv" "int_of nv = 0"
  shows "fastBigIntDivMod mv nv = Some (Inl ZeroDivisionError)"
  using assms by (simp add: fastBigIntDivMod_def Let_def kernel_zero_divisor)

lemma wrapper_type_error_iff:
  "fastBigIntDivMod mv nv = Some (Inl TypeError) \<longleftrightarrow> \<not> isinstance_int mv \<or> \<not> isinstance_int nv"
proof (cases "isinstance_int mv \<and> isinstance_int nv")
  case False
  then show ?thesis by (auto simp: fastBigIntDivMod_def)
next
  case True
  then show ?thesis
    using wrapper_returns [of mv nv] wrapper_zero_divisor [of mv nv]
    by (cases "int_of nv = 0") auto
qed

lemma floorSqrt_returns:
  assumes "isinstance_int nv" "0 \<le> int_of nv"
  shows "\<exists>v. floorSqrtPositiveInt nv = Some (Inr v)"
proof (cases nv)
  case (IntV n)
  then show ?thesis using floorSqrt_correct [of n] assms(2) by (auto simp: int_of_def)
next
  case (BoolV b)
  have "bit_length 1 \<le> 1" by (simp only: bit_length_le_iff) simp
  then have "bit_length (int_of nv) \<le> 1" unfolding BoolV by (simp add: int_of_def)
  then show ?thesis by (simp add: fs_small)
qed (use assms(1) in \<open>simp_all add: isinstance_int_def\<close>)

lemma bit_length_1: "bit_length 1 = 1"
  using bit_length_eqI [of 0 1] by simp

lemma hi_part_nonzero:
  assumes "e < bit_length n"
  shows "n div 2 ^ e \<noteq> 0"
proof (cases "0 < n")
  case True
  then show ?thesis using hi_part_pos(1) [OF True assms] by simp
next
  case False
  have "n \<noteq> 0" using assms bit_length_eq_0_iff [of n] by auto
  then have "n < 0" using False by simp
  then have "n div 2 ^ e < 0" by (simp add: div_neg_pos_less0)
  then show ?thesis by simp
qed

lemma debug_print_never_fires: "\<not> debug_print_fires m n"
proof -
  have "n div 2 ^ (bit_length n - (bit_length m - bit_length n)) \<noteq> 0"
    if "bit_length n < bit_length m" "\<not> bit_length n < 10000"
  proof (rule hi_part_nonzero)
    show "bit_length n - (bit_length m - bit_length n) < bit_length n" using that by linarith
  qed
  then show ?thesis
    by (auto simp: debug_print_fires_def Let_def splitHiLo_eq)
qed


subsection \<open>Bounds on powers of five\<close>

lemma sq_lower:
  assumes "0 \<le> L" "L * 2 ^ e \<le> x" "L' * 2 ^ s \<le> L * L"
  shows "L' * 2 ^ (2 * e + s) \<le> x * (x::int)"
proof -
  have "(2::int) ^ (2 * e + s) = (2 ^ e * 2 ^ e) * 2 ^ s" by (simp only: mult_2 power_add)
  then have "L' * 2 ^ (2 * e + s) = (L' * 2 ^ s) * (2 ^ e * 2 ^ e)" by simp
  also have "\<dots> \<le> (L * L) * (2 ^ e * 2 ^ e)"
    using assms(3) by (intro mult_right_mono) simp_all
  also have "\<dots> = (L * 2 ^ e) * (L * 2 ^ e)" by (simp add: algebra_simps)
  also have "\<dots> \<le> x * x"
  proof -
    have "0 \<le> L * (2::int) ^ e" using assms(1) by simp
    then show ?thesis using assms(2) by (intro mult_mono) linarith+
  qed
  finally show ?thesis .
qed

lemma sq_upper:
  assumes "0 \<le> x" "x \<le> U * 2 ^ e" "U * U \<le> U' * 2 ^ s"
  shows "x * (x::int) \<le> U' * 2 ^ (2 * e + s)"
proof -
  have "0 \<le> U * (2::int) ^ e" using assms(1,2) by linarith
  then have "x * x \<le> (U * 2 ^ e) * (U * 2 ^ e)"
    using assms(1,2) by (intro mult_mono) simp_all
  also have "\<dots> = (U * U) * (2 ^ e * 2 ^ e)" by (simp add: algebra_simps)
  also have "\<dots> \<le> (U' * 2 ^ s) * (2 ^ e * 2 ^ e)"
    using assms(3) by (intro mult_right_mono) simp_all
  also have "\<dots> = U' * 2 ^ (2 * e + s)"
  proof -
    have "(2::int) ^ (2 * e + s) = (2 ^ e * 2 ^ e) * 2 ^ s" by (simp only: mult_2 power_add)
    then show ?thesis by simp
  qed
  finally show ?thesis .
qed

lemma pow_double: "(x::int) ^ (2 * a) = x ^ a * x ^ a"
  by (simp add: power_add mult_2)

lemma five_pow_1: "5 * 2 ^ 0 \<le> (5::int) ^ 1" "(5::int) ^ 1 \<le> 5 * 2 ^ 0"
  by simp_all

lemma five_pow_2: "25 * 2 ^ 0 \<le> (5::int) ^ 2" "(5::int) ^ 2 \<le> 25 * 2 ^ 0"
proof -
  have sq: "(5::int) ^ 2 = 5 ^ 1 * 5 ^ 1"
    using pow_double [of 5 1] by (simp del: power_numeral)
  have lo: "(25::int) * 2 ^ 0 \<le> 5 * 5" and hi: "(5::int) * 5 \<le> 25 * 2 ^ 0" by simp_all
  have nn: "(0::int) \<le> 5 ^ 1" by (simp del: power_numeral)
  show "25 * 2 ^ 0 \<le> (5::int) ^ 2"
    using sq_lower [OF _ five_pow_1(1) lo] unfolding sq by (simp del: power_numeral)
  show "(5::int) ^ 2 \<le> 25 * 2 ^ 0"
    using sq_upper [OF nn five_pow_1(2) hi] unfolding sq by (simp del: power_numeral)
qed

lemma five_pow_4: "625 * 2 ^ 0 \<le> (5::int) ^ 4" "(5::int) ^ 4 \<le> 625 * 2 ^ 0"
proof -
  have sq: "(5::int) ^ 4 = 5 ^ 2 * 5 ^ 2"
    using pow_double [of 5 2] by (simp del: power_numeral)
  have lo: "(625::int) * 2 ^ 0 \<le> 25 * 25" and hi: "(25::int) * 25 \<le> 625 * 2 ^ 0" by simp_all
  have nn: "(0::int) \<le> 5 ^ 2" by (simp del: power_numeral)
  show "625 * 2 ^ 0 \<le> (5::int) ^ 4"
    using sq_lower [OF _ five_pow_2(1) lo] unfolding sq by (simp del: power_numeral)
  show "(5::int) ^ 4 \<le> 625 * 2 ^ 0"
    using sq_upper [OF nn five_pow_2(2) hi] unfolding sq by (simp del: power_numeral)
qed

lemma five_pow_8: "390625 * 2 ^ 0 \<le> (5::int) ^ 8" "(5::int) ^ 8 \<le> 390625 * 2 ^ 0"
proof -
  have sq: "(5::int) ^ 8 = 5 ^ 4 * 5 ^ 4"
    using pow_double [of 5 4] by (simp del: power_numeral)
  have lo: "(390625::int) * 2 ^ 0 \<le> 625 * 625" and hi: "(625::int) * 625 \<le> 390625 * 2 ^ 0" by simp_all
  have nn: "(0::int) \<le> 5 ^ 4" by (simp del: power_numeral)
  show "390625 * 2 ^ 0 \<le> (5::int) ^ 8"
    using sq_lower [OF _ five_pow_4(1) lo] unfolding sq by (simp del: power_numeral)
  show "(5::int) ^ 8 \<le> 390625 * 2 ^ 0"
    using sq_upper [OF nn five_pow_4(2) hi] unfolding sq by (simp del: power_numeral)
qed

lemma five_pow_16: "152587890625 * 2 ^ 0 \<le> (5::int) ^ 16" "(5::int) ^ 16 \<le> 152587890625 * 2 ^ 0"
proof -
  have sq: "(5::int) ^ 16 = 5 ^ 8 * 5 ^ 8"
    using pow_double [of 5 8] by (simp del: power_numeral)
  have lo: "(152587890625::int) * 2 ^ 0 \<le> 390625 * 390625" and hi: "(390625::int) * 390625 \<le> 152587890625 * 2 ^ 0" by simp_all
  have nn: "(0::int) \<le> 5 ^ 8" by (simp del: power_numeral)
  show "152587890625 * 2 ^ 0 \<le> (5::int) ^ 16"
    using sq_lower [OF _ five_pow_8(1) lo] unfolding sq by (simp del: power_numeral)
  show "(5::int) ^ 16 \<le> 152587890625 * 2 ^ 0"
    using sq_upper [OF nn five_pow_8(2) hi] unfolding sq by (simp del: power_numeral)
qed

lemma five_pow_32: "173472347597680 * 2 ^ 27 \<le> (5::int) ^ 32" "(5::int) ^ 32 \<le> 173472347597681 * 2 ^ 27"
proof -
  have sq: "(5::int) ^ 32 = 5 ^ 16 * 5 ^ 16"
    using pow_double [of 5 16] by (simp del: power_numeral)
  have lo: "(173472347597680::int) * 2 ^ 27 \<le> 152587890625 * 152587890625" and hi: "(152587890625::int) * 152587890625 \<le> 173472347597681 * 2 ^ 27" by simp_all
  have nn: "(0::int) \<le> 5 ^ 16" by (simp del: power_numeral)
  show "173472347597680 * 2 ^ 27 \<le> (5::int) ^ 32"
    using sq_lower [OF _ five_pow_16(1) lo] unfolding sq by (simp del: power_numeral)
  show "(5::int) ^ 32 \<le> 173472347597681 * 2 ^ 27"
    using sq_upper [OF nn five_pow_16(2) hi] unfolding sq by (simp del: power_numeral)
qed

lemma five_pow_64: "213821176807373 * 2 ^ 101 \<le> (5::int) ^ 64" "(5::int) ^ 64 \<le> 213821176807377 * 2 ^ 101"
proof -
  have sq: "(5::int) ^ 64 = 5 ^ 32 * 5 ^ 32"
    using pow_double [of 5 32] by (simp del: power_numeral)
  have lo: "(213821176807373::int) * 2 ^ 47 \<le> 173472347597680 * 173472347597680" and hi: "(173472347597681::int) * 173472347597681 \<le> 213821176807377 * 2 ^ 47" by simp_all
  have nn: "(0::int) \<le> 5 ^ 32" by (simp del: power_numeral)
  show "213821176807373 * 2 ^ 101 \<le> (5::int) ^ 64"
    using sq_lower [OF _ five_pow_32(1) lo] unfolding sq by (simp del: power_numeral)
  show "(5::int) ^ 64 \<le> 213821176807377 * 2 ^ 101"
    using sq_upper [OF nn five_pow_32(2) hi] unfolding sq by (simp del: power_numeral)
qed

lemma five_pow_128: "162428277588197 * 2 ^ 250 \<le> (5::int) ^ 128" "(5::int) ^ 128 \<le> 162428277588204 * 2 ^ 250"
proof -
  have sq: "(5::int) ^ 128 = 5 ^ 64 * 5 ^ 64"
    using pow_double [of 5 64] by (simp del: power_numeral)
  have lo: "(162428277588197::int) * 2 ^ 48 \<le> 213821176807373 * 213821176807373" and hi: "(213821176807377::int) * 213821176807377 \<le> 162428277588204 * 2 ^ 48" by simp_all
  have nn: "(0::int) \<le> 5 ^ 64" by (simp del: power_numeral)
  show "162428277588197 * 2 ^ 250 \<le> (5::int) ^ 128"
    using sq_lower [OF _ five_pow_64(1) lo] unfolding sq by (simp del: power_numeral)
  show "(5::int) ^ 128 \<le> 162428277588204 * 2 ^ 250"
    using sq_upper [OF nn five_pow_64(2) hi] unfolding sq by (simp del: power_numeral)
qed

lemma five_pow_256: "187462101736943 * 2 ^ 547 \<le> (5::int) ^ 256" "(5::int) ^ 256 \<le> 187462101736960 * 2 ^ 547"
proof -
  have sq: "(5::int) ^ 256 = 5 ^ 128 * 5 ^ 128"
    using pow_double [of 5 128] by (simp del: power_numeral)
  have lo: "(187462101736943::int) * 2 ^ 47 \<le> 162428277588197 * 162428277588197" and hi: "(162428277588204::int) * 162428277588204 \<le> 187462101736960 * 2 ^ 47" by simp_all
  have nn: "(0::int) \<le> 5 ^ 128" by (simp del: power_numeral)
  show "187462101736943 * 2 ^ 547 \<le> (5::int) ^ 256"
    using sq_lower [OF _ five_pow_128(1) lo] unfolding sq by (simp del: power_numeral)
  show "(5::int) ^ 256 \<le> 187462101736960 * 2 ^ 547"
    using sq_upper [OF nn five_pow_128(2) hi] unfolding sq by (simp del: power_numeral)
qed

lemma five_pow_512: "249699209487857 * 2 ^ 1141 \<le> (5::int) ^ 512" "(5::int) ^ 512 \<le> 249699209487903 * 2 ^ 1141"
proof -
  have sq: "(5::int) ^ 512 = 5 ^ 256 * 5 ^ 256"
    using pow_double [of 5 256] by (simp del: power_numeral)
  have lo: "(249699209487857::int) * 2 ^ 47 \<le> 187462101736943 * 187462101736943" and hi: "(187462101736960::int) * 187462101736960 \<le> 249699209487903 * 2 ^ 47" by simp_all
  have nn: "(0::int) \<le> 5 ^ 256" by (simp del: power_numeral)
  show "249699209487857 * 2 ^ 1141 \<le> (5::int) ^ 512"
    using sq_lower [OF _ five_pow_256(1) lo] unfolding sq by (simp del: power_numeral)
  show "(5::int) ^ 512 \<le> 249699209487903 * 2 ^ 1141"
    using sq_upper [OF nn five_pow_256(2) hi] unfolding sq by (simp del: power_numeral)
qed

lemma five_pow_1024: "221510615073088 * 2 ^ 2330 \<le> (5::int) ^ 1024" "(5::int) ^ 1024 \<le> 221510615073171 * 2 ^ 2330"
proof -
  have sq: "(5::int) ^ 1024 = 5 ^ 512 * 5 ^ 512"
    using pow_double [of 5 512] by (simp del: power_numeral)
  have lo: "(221510615073088::int) * 2 ^ 48 \<le> 249699209487857 * 249699209487857" and hi: "(249699209487903::int) * 249699209487903 \<le> 221510615073171 * 2 ^ 48" by simp_all
  have nn: "(0::int) \<le> 5 ^ 512" by (simp del: power_numeral)
  show "221510615073088 * 2 ^ 2330 \<le> (5::int) ^ 1024"
    using sq_lower [OF _ five_pow_512(1) lo] unfolding sq by (simp del: power_numeral)
  show "(5::int) ^ 1024 \<le> 221510615073171 * 2 ^ 2330"
    using sq_upper [OF nn five_pow_512(2) hi] unfolding sq by (simp del: power_numeral)
qed

lemma five_pow_2048: "174320833643753 * 2 ^ 4708 \<le> (5::int) ^ 2048" "(5::int) ^ 2048 \<le> 174320833643885 * 2 ^ 4708"
proof -
  have sq: "(5::int) ^ 2048 = 5 ^ 1024 * 5 ^ 1024"
    using pow_double [of 5 1024] by (simp del: power_numeral)
  have lo: "(174320833643753::int) * 2 ^ 48 \<le> 221510615073088 * 221510615073088" and hi: "(221510615073171::int) * 221510615073171 \<le> 174320833643885 * 2 ^ 48" by simp_all
  have nn: "(0::int) \<le> 5 ^ 1024" by (simp del: power_numeral)
  show "174320833643753 * 2 ^ 4708 \<le> (5::int) ^ 2048"
    using sq_lower [OF _ five_pow_1024(1) lo] unfolding sq by (simp del: power_numeral)
  show "(5::int) ^ 2048 \<le> 174320833643885 * 2 ^ 4708"
    using sq_upper [OF nn five_pow_1024(2) hi] unfolding sq by (simp del: power_numeral)
qed

lemma five_pow_4096: "215917971802447 * 2 ^ 9463 \<le> (5::int) ^ 4096" "(5::int) ^ 4096 \<le> 215917971802775 * 2 ^ 9463"
proof -
  have sq: "(5::int) ^ 4096 = 5 ^ 2048 * 5 ^ 2048"
    using pow_double [of 5 2048] by (simp del: power_numeral)
  have lo: "(215917971802447::int) * 2 ^ 47 \<le> 174320833643753 * 174320833643753" and hi: "(174320833643885::int) * 174320833643885 \<le> 215917971802775 * 2 ^ 47" by simp_all
  have nn: "(0::int) \<le> 5 ^ 2048" by (simp del: power_numeral)
  show "215917971802447 * 2 ^ 9463 \<le> (5::int) ^ 4096"
    using sq_lower [OF _ five_pow_2048(1) lo] unfolding sq by (simp del: power_numeral)
  show "(5::int) ^ 4096 \<le> 215917971802775 * 2 ^ 9463"
    using sq_upper [OF nn five_pow_2048(2) hi] unfolding sq by (simp del: power_numeral)
qed

lemma five_pow_8192: "165629538696813 * 2 ^ 18974 \<le> (5::int) ^ 8192" "(5::int) ^ 8192 \<le> 165629538697317 * 2 ^ 18974"
proof -
  have sq: "(5::int) ^ 8192 = 5 ^ 4096 * 5 ^ 4096"
    using pow_double [of 5 4096] by (simp del: power_numeral)
  have lo: "(165629538696813::int) * 2 ^ 48 \<le> 215917971802447 * 215917971802447" and hi: "(215917971802775::int) * 215917971802775 \<le> 165629538697317 * 2 ^ 48" by simp_all
  have nn: "(0::int) \<le> 5 ^ 4096" by (simp del: power_numeral)
  show "165629538696813 * 2 ^ 18974 \<le> (5::int) ^ 8192"
    using sq_lower [OF _ five_pow_4096(1) lo] unfolding sq by (simp del: power_numeral)
  show "(5::int) ^ 8192 \<le> 165629538697317 * 2 ^ 18974"
    using sq_upper [OF nn five_pow_4096(2) hi] unfolding sq by (simp del: power_numeral)
qed


subsection \<open>Decimal strings\<close>

lemma digit_val_digit_char: "d < 10 \<Longrightarrow> digit_val (digit_char d) = d"
  by (auto simp: digit_val_def digit_char_def less_Suc_eq numeral_eq_Suc nth_Cons')

lemma parse_nat_snoc: "parse_nat (s @ [c]) = 10 * parse_nat s + digit_val c"
  by (simp add: parse_nat_def)

lemma parse_nat_append: "parse_nat (a @ b) = parse_nat a * 10 ^ length b + parse_nat b"
proof (induction b rule: rev_induct)
  case Nil
  show ?case by (simp add: parse_nat_def)
next
  case (snoc c b)
  have "parse_nat (a @ b @ [c]) = 10 * parse_nat (a @ b) + digit_val c"
    using parse_nat_snoc [of "a @ b" c] by simp
  then show ?case by (simp add: snoc.IH parse_nat_snoc algebra_simps)
qed

lemma parse_nat_str_nat: "parse_nat (str_nat n) = n"
proof (induction n rule: str_nat.induct)
  case (1 n)
  show ?case
  proof (cases "n < 10")
    case True
    then have "str_nat n = [digit_char n]" by (subst str_nat.simps) simp
    then show ?thesis using True parse_nat_snoc [of "[]" "digit_char n"]
      by (simp add: digit_val_digit_char parse_nat_def)
  next
    case False
    then have "str_nat n = str_nat (n div 10) @ [digit_char (n mod 10)]"
      by (subst str_nat.simps) simp
    then show ?thesis using False 1
      by (simp add: parse_nat_snoc digit_val_digit_char)
  qed
qed

lemma parse_nat_zeros: "parse_nat (replicate k CHR ''0'') = 0"
proof (induction k)
  case 0
  show ?case by (simp add: parse_nat_def)
next
  case (Suc k)
  have "replicate (Suc k) CHR ''0'' = replicate k CHR ''0'' @ [CHR ''0'']"
    by (simp add: replicate_append_same)
  then show ?case using Suc by (simp add: parse_nat_snoc digit_val_def del: replicate_Suc)
qed

lemma str_nat_pow10: "str_nat (10 ^ k) = CHR ''1'' # replicate k CHR ''0''"
proof (induction k)
  case 0
  show ?case by (subst str_nat.simps) (simp add: digit_char_def)
next
  case (Suc k)
  have "\<not> (10::nat) ^ Suc k < 10" by simp
  then have "str_nat (10 ^ Suc k) = str_nat (10 ^ Suc k div 10) @ [digit_char (10 ^ Suc k mod 10)]"
    by (subst str_nat.simps) (simp only: if_False)
  also have "\<dots> = str_nat (10 ^ k) @ [CHR ''0'']" by (simp add: digit_char_def)
  finally show ?case by (simp add: Suc replicate_append_same)
qed

lemma str_nat_nonempty: "str_nat n \<noteq> []"
  by (subst str_nat.simps) simp

lemma str_nat_length_ge: "10 ^ k \<le> n \<Longrightarrow> k < length (str_nat n)"
proof (induction k arbitrary: n)
  case 0
  then show ?case using str_nat_nonempty [of n] by (cases "str_nat n") simp_all
next
  case (Suc k)
  then have "10 ^ k \<le> n div 10" by (simp add: less_eq_div_iff_mult_less_eq mult.commute)
  then have "k < length (str_nat (n div 10))" by (rule Suc.IH)
  moreover have "\<not> n < 10"
  proof -
    have "(10::nat) \<le> 10 ^ Suc k" by simp
    then show ?thesis using Suc.prems by linarith
  qed
  then have "str_nat n = str_nat (n div 10) @ [digit_char (n mod 10)]"
    by (subst str_nat.simps) simp
  ultimately show ?case by simp
qed

lemma str_nat_hd: "0 < n \<Longrightarrow> hd (str_nat n) \<noteq> CHR ''0'' \<and> hd (str_nat n) \<noteq> CHR ''-''"
proof (induction n rule: str_nat.induct)
  case (1 n)
  show ?case
  proof (cases "n < 10")
    case True
    then have "str_nat n = [digit_char n]" by (subst str_nat.simps) simp
    moreover have "n \<in> {1, 2, 3, 4, 5, 6, 7, 8, 9}" using True "1.prems" by auto
    ultimately show ?thesis by (auto simp: digit_char_def)
  next
    case False
    then have "str_nat n = str_nat (n div 10) @ [digit_char (n mod 10)]"
      by (subst str_nat.simps) simp
    moreover have "0 < n div 10" using False by simp
    ultimately show ?thesis using "1.IH" [OF False] str_nat_nonempty [of "n div 10"]
      by simp
  qed
qed

lemma strip_leading_zeros_id:
  "s \<noteq> [] \<Longrightarrow> hd s \<noteq> CHR ''0'' \<Longrightarrow> strip_leading_zeros s = Some (Inr s)"
  by (cases s) (simp_all add: strip_leading_zeros_def)

lemma parse_int_nonneg:
  "s \<noteq> [] \<Longrightarrow> hd s \<noteq> CHR ''-'' \<Longrightarrow> parse_int s = int (parse_nat s)"
  by (cases s) (simp_all add: parse_int_def)


subsection \<open>Bit lengths of the powers of ten\<close>

lemma mant_lower:
  assumes "2 ^ a \<le> L" "L * 2 ^ e \<le> (x::int)"
  shows "2 ^ (a + e) \<le> x"
proof -
  have "(2::int) ^ (a + e) = 2 ^ a * 2 ^ e" by (simp add: power_add)
  also have "\<dots> \<le> L * 2 ^ e" using assms(1) by (intro mult_right_mono) simp_all
  finally show ?thesis using assms(2) by linarith
qed

lemma mant_upper:
  assumes "U < 2 ^ a" "(x::int) \<le> U * 2 ^ e"
  shows "x < 2 ^ (a + e)"
proof -
  have "U * 2 ^ e < 2 ^ a * (2::int) ^ e" using assms(1) by simp
  also have "\<dots> = 2 ^ (a + e)" by (simp add: power_add)
  finally show ?thesis using assms(2) by linarith
qed

lemma plus_one_upper:
  assumes "(x::int) \<le> M * 2 ^ g" "M + 1 \<le> 2 ^ h" "h \<le> a"
  shows "(2 ^ a + 1) * x < 2 ^ (h + a + g)"
proof -
  have "(2::int) ^ h \<le> 2 ^ a" using assms(3) by simp
  then have Ma: "M < 2 ^ a" using assms(2) by linarith
  have "(2 ^ a + 1) * x \<le> (2 ^ a + 1) * (M * 2 ^ g)"
    using assms(1) by (intro mult_left_mono) simp_all
  also have "\<dots> = M * (2 ^ a * 2 ^ g) + M * 2 ^ g" by (simp add: algebra_simps)
  also have "\<dots> < M * (2 ^ a * 2 ^ g) + 2 ^ a * 2 ^ g"
    using Ma by simp
  also have "\<dots> = (M + 1) * (2 ^ a * 2 ^ g)" by (simp add: algebra_simps)
  also have "\<dots> \<le> 2 ^ h * (2 ^ a * 2 ^ g)"
    using assms(2) by (intro mult_right_mono) simp_all
  also have "\<dots> = 2 ^ (h + a + g)" by (simp add: power_add)
  finally show ?thesis .
qed

lemma pow10_split: "(10::int) ^ k = 2 ^ k * 5 ^ k"
proof -
  have "(10::int) = 2 * 5" by simp
  then show ?thesis by (simp only: power_mult_distrib)
qed

lemma bit_length_between:
  assumes "2 ^ k \<le> x" "x < 2 ^ Suc k"
  shows "bit_length x = Suc k"
proof (rule bit_length_eqI)
  have "(0::int) < 2 ^ k" by simp
  then have "0 < x" using assms(1) by linarith
  then show "2 ^ k \<le> \<bar>x\<bar>" "\<bar>x\<bar> < 2 ^ Suc k" using assms by simp_all
qed

lemma five_4096: "2 ^ 9510 \<le> (5::int) ^ 4096" "(5::int) ^ 4096 < 2 ^ 9511"
proof -
  have a: "(2::int) ^ 47 \<le> 215917971802447" and b: "(215917971802775::int) < 2 ^ 48" by simp_all
  show "2 ^ 9510 \<le> (5::int) ^ 4096"
    using mant_lower [OF a five_pow_4096(1)] by (simp del: power_numeral)
  show "(5::int) ^ 4096 < 2 ^ 9511"
    using mant_upper [OF b five_pow_4096(2)] by (simp del: power_numeral)
qed

lemma five_8192: "2 ^ 19021 \<le> (5::int) ^ 8192" "(5::int) ^ 8192 < 2 ^ 19022"
proof -
  have a: "(2::int) ^ 47 \<le> 165629538696813" and b: "(165629538697317::int) < 2 ^ 48" by simp_all
  show "2 ^ 19021 \<le> (5::int) ^ 8192"
    using mant_lower [OF a five_pow_8192(1)] by (simp del: power_numeral)
  show "(5::int) ^ 8192 < 2 ^ 19022"
    using mant_upper [OF b five_pow_8192(2)] by (simp del: power_numeral)
qed

lemma two_pow_mult_mono_lower:
  assumes "2 ^ b \<le> (y::int)"
  shows "2 ^ (a + b) \<le> 2 ^ a * y"
proof -
  have "(2::int) ^ (a + b) = 2 ^ a * 2 ^ b" by (simp add: power_add)
  also have "\<dots> \<le> 2 ^ a * y" using assms by (intro mult_left_mono) simp_all
  finally show ?thesis .
qed

lemma two_pow_mult_mono_upper:
  assumes "(y::int) < 2 ^ b"
  shows "2 ^ a * y < 2 ^ (a + b)"
proof -
  have "2 ^ a * y < 2 ^ a * (2::int) ^ b" using assms by simp
  then show ?thesis by (simp add: power_add)
qed

lemma bl_P4: "bit_length (10 ^ 4096) = 13607"
proof -
  have "bit_length (2 ^ 4096 * 5 ^ 4096) = Suc 13606"
  proof (rule bit_length_between)
    show "2 ^ 13606 \<le> (2::int) ^ 4096 * 5 ^ 4096"
      using two_pow_mult_mono_lower [OF five_4096(1), of 4096] by (simp del: power_numeral)
    show "(2::int) ^ 4096 * 5 ^ 4096 < 2 ^ Suc 13606"
      using two_pow_mult_mono_upper [OF five_4096(2), of 4096] by (simp del: power_numeral)
  qed
  then show ?thesis unfolding pow10_split by (simp del: power_numeral)
qed

lemma bl_P8: "bit_length (10 ^ 8192) = 27214"
proof -
  have "bit_length (2 ^ 8192 * 5 ^ 8192) = Suc 27213"
  proof (rule bit_length_between)
    show "2 ^ 27213 \<le> (2::int) ^ 8192 * 5 ^ 8192"
      using two_pow_mult_mono_lower [OF five_8192(1), of 8192] by (simp del: power_numeral)
    show "(2::int) ^ 8192 * 5 ^ 8192 < 2 ^ Suc 27213"
      using two_pow_mult_mono_upper [OF five_8192(2), of 8192] by (simp del: power_numeral)
  qed
  then show ?thesis unfolding pow10_split by (simp del: power_numeral)
qed


lemma P4_bounds: "2 ^ 13606 \<le> (10::int) ^ 4096" "(10::int) ^ 4096 \<le> 215917971802775 * 2 ^ 13559"
proof -
  show "2 ^ 13606 \<le> (10::int) ^ 4096"
    unfolding pow10_split
    using two_pow_mult_mono_lower [OF five_4096(1), of 4096] by (simp del: power_numeral)
  have "(2::int) ^ 4096 * 5 ^ 4096 \<le> 2 ^ 4096 * (215917971802775 * 2 ^ 9463)"
    using five_pow_4096(2) by (intro mult_left_mono) (simp_all del: power_numeral)
  also have "\<dots> = 215917971802775 * (2 ^ 4096 * 2 ^ 9463)" by (simp del: power_numeral)
  also have "(2::int) ^ 4096 * 2 ^ 9463 = 2 ^ 13559"
    by (simp del: power_numeral flip: power_add)
  finally show "(10::int) ^ 4096 \<le> 215917971802775 * 2 ^ 13559" unfolding pow10_split .
qed

lemma P8_bounds: "2 ^ 27213 \<le> (10::int) ^ 8192" "(10::int) ^ 8192 \<le> 165629538697317 * 2 ^ 27166"
proof -
  show "2 ^ 27213 \<le> (10::int) ^ 8192"
    unfolding pow10_split
    using two_pow_mult_mono_lower [OF five_8192(1), of 8192] by (simp del: power_numeral)
  have "(2::int) ^ 8192 * 5 ^ 8192 \<le> 2 ^ 8192 * (165629538697317 * 2 ^ 18974)"
    using five_pow_8192(2) by (intro mult_left_mono) (simp_all del: power_numeral)
  also have "\<dots> = 165629538697317 * (2 ^ 8192 * 2 ^ 18974)" by (simp del: power_numeral)
  also have "(2::int) ^ 8192 * 2 ^ 18974 = 2 ^ 27166"
    by (simp del: power_numeral flip: power_add)
  finally show "(10::int) ^ 8192 \<le> 165629538697317 * 2 ^ 27166" unfolding pow10_split .
qed

lemma P12_split: "(10::int) ^ 12288 = 10 ^ 4096 * 10 ^ 8192"
  by (simp del: power_numeral flip: power_add)

lemma plus_one_lower:
  assumes "2 ^ b \<le> (x::int)"
  shows "2 ^ (a + b) \<le> (2 ^ a + 1) * x"
proof -
  have "(0::int) \<le> 2 ^ b" by simp
  then have "0 \<le> x" using assms by linarith
  then have "2 ^ a * x \<le> (2 ^ a + 1) * x" by (simp add: algebra_simps)
  then show ?thesis using two_pow_mult_mono_lower [OF assms, of a] by linarith
qed

lemma bl_cP4: "bit_length ((2 ^ 13608 + 1) * 10 ^ 4096) = 27215"
proof -
  have "bit_length ((2 ^ 13608 + 1) * 10 ^ 4096) = Suc 27214"
  proof (rule bit_length_between)
    show "2 ^ 27214 \<le> (2 ^ 13608 + 1) * (10::int) ^ 4096"
      using plus_one_lower [OF P4_bounds(1), of 13608] by (simp del: power_numeral)
    have m: "(215917971802775::int) + 1 \<le> 2 ^ 48" by simp
    have "(48::nat) \<le> 13608" by simp
    from plus_one_upper [OF P4_bounds(2) m this]
    show "(2 ^ 13608 + 1) * (10::int) ^ 4096 < 2 ^ Suc 27214" by (simp del: power_numeral)
  qed
  then show ?thesis by (simp del: power_numeral)
qed

lemma P12_bounds: "2 ^ 40819 \<le> (10::int) ^ 12288"
  "(10::int) ^ 12288 \<le> 35762394066153922711545654675 * 2 ^ 40725"
proof -
  have "(2::int) ^ 40819 = 2 ^ 13606 * 2 ^ 27213" by (simp del: power_numeral flip: power_add)
  also have "\<dots> \<le> 10 ^ 4096 * 10 ^ 8192"
    using P4_bounds(1) P8_bounds(1) by (intro mult_mono) (simp_all del: power_numeral)
  finally show "2 ^ 40819 \<le> (10::int) ^ 12288" unfolding P12_split .
  have "(10::int) ^ 4096 * 10 ^ 8192
      \<le> (215917971802775 * 2 ^ 13559) * (165629538697317 * 2 ^ 27166)"
    using P4_bounds(2) P8_bounds(2) by (intro mult_mono) (simp_all del: power_numeral)
  also have "\<dots> = (215917971802775 * 165629538697317) * (2 ^ 13559 * 2 ^ 27166)"
    by (simp del: power_numeral)
  also have "(2::int) ^ 13559 * 2 ^ 27166 = 2 ^ 40725" by (simp del: power_numeral flip: power_add)
  also have "(215917971802775::int) * 165629538697317 \<le> 35762394066153922711545654675 * 1"
    by simp
  finally show "(10::int) ^ 12288 \<le> 35762394066153922711545654675 * 2 ^ 40725"
    unfolding P12_split by (simp del: power_numeral)
qed

lemma bl_n0: "bit_length ((2 ^ 13608 + 1) * 10 ^ 12288) = 54428"
proof -
  have "bit_length ((2 ^ 13608 + 1) * 10 ^ 12288) = Suc 54427"
  proof (rule bit_length_between)
    show "2 ^ 54427 \<le> (2 ^ 13608 + 1) * (10::int) ^ 12288"
      using plus_one_lower [OF P12_bounds(1), of 13608] by (simp del: power_numeral)
    have m: "(35762394066153922711545654675::int) + 1 \<le> 2 ^ 95" by simp
    have "(95::nat) \<le> 13608" by simp
    from plus_one_upper [OF P12_bounds(2) m this]
    show "(2 ^ 13608 + 1) * (10::int) ^ 12288 < 2 ^ Suc 54427" by (simp del: power_numeral)
  qed
  then show ?thesis by (simp del: power_numeral)
qed

lemma bl_small_powers:
  assumes "j \<le> 12"
  shows "bit_length (10 ^ 2 ^ j) \<le> 13607"
proof -
  have "(2::nat) ^ j \<le> 2 ^ 12" using assms by (intro power_increasing) simp_all
  then have "(2::nat) ^ j \<le> 4096" by simp
  then have "(10::int) ^ 2 ^ j \<le> 10 ^ 4096" by (intro power_increasing) simp_all
  then have "bit_length (10 ^ 2 ^ j) \<le> bit_length (10 ^ 4096)"
    by (intro bit_length_mono) (simp del: power_numeral)
  then show ?thesis unfolding bl_P4 .
qed


subsection \<open>The power table and the conversion helper\<close>

lemma py_index_last:
  "xs \<noteq> [] \<Longrightarrow> py_index xs (- 1) = Inr (last xs)"
  by (cases xs rule: rev_cases) (simp_all add: py_index_def nth_append)

lemma py_index_nth:
  "i < length xs \<Longrightarrow> py_index xs (int i) = Inr (xs ! i)"
  by (simp add: py_index_def)

lemma powers_loop_step:
  assumes "ps \<noteq> []"
  shows "powers_loop ps n =
    (if bit_length (last ps) * 2 < bit_length n then powers_loop (ps @ [last ps * last ps]) n
     else Some (Inr ps))"
  by (subst powers_loop.simps) (simp add: py_index_last [OF assms])

lemma pow10_table_snoc:
  "map (\<lambda>i. (10::int) ^ 2 ^ i) [0..<Suc j] @ [10 ^ 2 ^ j * 10 ^ 2 ^ j]
     = map (\<lambda>i. (10::int) ^ 2 ^ i) [0..<Suc (Suc j)]"
proof -
  have "(10::int) ^ 2 ^ Suc j = 10 ^ 2 ^ j * 10 ^ 2 ^ j"
    by (simp add: power_add mult_2 del: power_numeral)
  then show ?thesis by (simp del: power_numeral)
qed

lemma table_step:
  "powers_loop (map (\<lambda>i. (10::int) ^ 2 ^ i) [0..<Suc j]) n =
    (if bit_length (10 ^ 2 ^ j) * 2 < bit_length n
     then powers_loop (map (\<lambda>i. (10::int) ^ 2 ^ i) [0..<Suc (Suc j)]) n
     else Some (Inr (map (\<lambda>i. (10::int) ^ 2 ^ i) [0..<Suc j])))"
proof -
  have ne: "map (\<lambda>i. (10::int) ^ 2 ^ i) [0..<Suc j] \<noteq> []" by simp
  have l: "last (map (\<lambda>i. (10::int) ^ 2 ^ i) [0..<Suc j]) = 10 ^ 2 ^ j"
    by (simp del: power_numeral)
  show ?thesis
    by (subst powers_loop_step [OF ne]) (simp only: l pow10_table_snoc)
qed

lemma powers_loop_table:
  assumes n: "bit_length n = 54428"
  shows "j \<le> 13 \<Longrightarrow>
    powers_loop (map (\<lambda>i. (10::int) ^ 2 ^ i) [0..<Suc j]) n
      = Some (Inr (map (\<lambda>i. (10::int) ^ 2 ^ i) [0..<Suc 13]))"
proof (induction "13 - j" arbitrary: j)
  case 0
  then have j: "j = 13" by simp
  have e: "(2::nat) ^ 13 = 8192" by simp
  have "bit_length (10 ^ 2 ^ 13) = 27214" unfolding e by (rule bl_P8)
  then have "\<not> bit_length (10 ^ 2 ^ 13) * 2 < bit_length n"
    unfolding n by (simp del: power_numeral)
  then show ?case unfolding j by (subst table_step) (simp only: if_False)
next
  case (Suc d)
  then have j: "j \<le> 12" and d: "d = 13 - Suc j" "Suc j \<le> 13" by simp_all
  have c: "bit_length (10 ^ 2 ^ j) * 2 < bit_length n"
    using bl_small_powers [OF j] unfolding n by linarith
  have "powers_loop (map (\<lambda>i. (10::int) ^ 2 ^ i) [0..<Suc j]) n
      = powers_loop (map (\<lambda>i. (10::int) ^ 2 ^ i) [0..<Suc (Suc j)]) n"
    by (subst table_step) (simp only: c if_True)
  also have "\<dots> = Some (Inr (map (\<lambda>i. (10::int) ^ 2 ^ i) [0..<Suc 13]))"
    by (rule Suc.hyps(1) [OF d])
  finally show ?case .
qed

lemma powers_loop_start:
  assumes "bit_length n = 54428"
  shows "powers_loop [10] n = Some (Inr (map (\<lambda>i. (10::int) ^ 2 ^ i) [0..<14]))"
proof -
  have "map (\<lambda>i. (10::int) ^ 2 ^ i) [0..<Suc 0] = [10]" by simp
  moreover have "Suc 13 = 14" by simp
  ultimately show ?thesis using powers_loop_table [OF assms, of 0] by (simp only:)
qed

lemma py_index_map_upt:
  "i < n \<Longrightarrow> py_index (map f [0..<n]) (int i) = Inr (f i)"
  by (simp add: py_index_def)

lemma table_index:
  assumes "i < 14"
  shows "py_index (map (\<lambda>i. (10::int) ^ 2 ^ i) [0..<14]) (int i) = Inr (10 ^ 2 ^ i)"
  using assms by (rule py_index_map_upt)

lemma helper_leaf:
  assumes "bit_length (int_of v) < 20000" "0 \<le> d"
  shows "toBase10StringHelper v ps d
    = Some (Inr (replicate (nat (push_bit (nat d) 1 - int (length (py_str v)))) CHR ''0''
                 @ py_str v))"
  using assms by (subst toBase10StringHelper.simps) (simp add: Let_def)

lemma helper_node:
  assumes "\<not> bit_length (int_of v) < 20000" "py_index ps (d - 1) = Inr p"
    "divModPositiveArgs (int_of v) p = Some (Inr (lhs, rhs))"
    "toBase10StringHelper (IntV lhs) ps (d - 1) = Some (Inr a)"
    "toBase10StringHelper (IntV rhs) ps (d - 1) = Some (Inr b)"
  shows "toBase10StringHelper v ps d = Some (Inr (a @ b))"
  using assms by (subst toBase10StringHelper.simps) simp


lemma str_int_nonneg: "0 \<le> x \<Longrightarrow> str_int x = str_nat (nat x)"
  by (simp add: str_int_def)

lemma helper_zero:
  "toBase10StringHelper (IntV 0) ps 13 = Some (Inr (replicate 8192 CHR ''0''))"
proof -
  have "str_nat 0 = ''0''" by (subst str_nat.simps) (simp add: digit_char_def)
  then have s: "py_str (IntV 0) = ''0''" by (simp add: py_str_def str_int_def)
  have "replicate 8191 CHR ''0'' @ ''0'' = replicate (Suc 8191) CHR ''0''"
    by (simp only: replicate_append_same replicate_Suc [symmetric])
  then have r: "replicate 8191 CHR ''0'' @ ''0'' = replicate 8192 CHR ''0''" by simp
  have "toBase10StringHelper (IntV 0) ps 13
      = Some (Inr (replicate (nat (push_bit (nat 13) 1 - int (length (py_str (IntV 0))))) CHR ''0''
                 @ py_str (IntV 0)))"
    by (rule helper_leaf) (simp_all add: int_of_def)
  also have "nat (push_bit (nat 13) 1 - int (length (py_str (IntV 0)))) = 8191"
    unfolding s by (simp add: push_bit_eq_mult)
  finally show ?thesis unfolding s r .
qed

lemma helper_leaf_full:
  assumes "bit_length x < 20000" "0 \<le> x" "4096 \<le> length (str_nat (nat x))"
  shows "toBase10StringHelper (IntV x) ps 12 = Some (Inr (str_int x))"
proof -
  have s: "py_str (IntV x) = str_int x" by (simp add: py_str_def)
  have "toBase10StringHelper (IntV x) ps 12
      = Some (Inr (replicate (nat (push_bit (nat 12) 1 - int (length (py_str (IntV x))))) CHR ''0''
                 @ py_str (IntV x)))"
    by (rule helper_leaf) (simp_all add: int_of_def assms(1))
  also have "nat (push_bit (nat 12) 1 - int (length (py_str (IntV x)))) = 0"
    unfolding s str_int_nonneg [OF assms(2)] using assms(3) by (simp add: push_bit_eq_mult)
  finally show ?thesis unfolding s by simp
qed

lemma str_slip_trace:
  fixes A P4 P8 n0 m1 :: int
  assumes T: "powers_loop [10] n0 = Some (Inr T)" "length T = 14"
    and idx: "py_index T 13 = Inr P8" "py_index T 12 = Inr P4"
    and big: "\<not> bit_length n0 < 20000" "\<not> bit_length m1 < 20000"
    and d1: "divModPositiveArgs n0 P8 = Some (Inr (m1, 0))"
    and d2: "divModPositiveArgs m1 P4 = Some (Inr (A, P4))"
    and leafA: "bit_length A < 20000" "0 < A" "4096 \<le> length (str_nat (nat A))"
    and leafP: "bit_length P4 < 20000" "0 \<le> P4" "4096 \<le> length (str_nat (nat P4))"
    and pos: "0 < n0"
  shows "fastBigIntStrBase10 (IntV n0)
    = Some (Inr (str_int A @ str_int P4 @ replicate 8192 CHR ''0''))"
proof -
  have A0: "0 \<le> A" using leafA(2) by simp
  have hA: "toBase10StringHelper (IntV A) T (13 - 1) = Some (Inr (str_int A))"
    using helper_leaf_full [OF leafA(1) A0 leafA(3), of T] by simp
  have hP: "toBase10StringHelper (IntV P4) T (13 - 1) = Some (Inr (str_int P4))"
    using helper_leaf_full [OF leafP, of T] by simp
  have i12: "py_index T (13 - 1) = Inr P4" using idx(2) by simp
  have big1: "\<not> bit_length (int_of (IntV m1)) < 20000" using big(2) by (simp add: int_of_def)
  have d2': "divModPositiveArgs (int_of (IntV m1)) P4 = Some (Inr (A, P4))"
    using d2 by (simp add: int_of_def)
  have h1: "toBase10StringHelper (IntV m1) T (14 - 1) = Some (Inr (str_int A @ str_int P4))"
    using helper_node [OF big1 i12 d2' hA hP] by simp
  have h0: "toBase10StringHelper (IntV 0) T (14 - 1) = Some (Inr (replicate 8192 CHR ''0''))"
    using helper_zero [of T] by simp
  have i13: "py_index T (14 - 1) = Inr P8" using idx(1) by simp
  have big0: "\<not> bit_length (int_of (IntV n0)) < 20000" using big(1) by (simp add: int_of_def)
  have d1': "divModPositiveArgs (int_of (IntV n0)) P8 = Some (Inr (m1, 0))"
    using d1 by (simp add: int_of_def)
  have h: "toBase10StringHelper (IntV n0) T 14
      = Some (Inr ((str_int A @ str_int P4) @ replicate 8192 CHR ''0''))"
    by (rule helper_node [OF big0 i13 d1' h1 h0])
  have ne: "str_nat (nat A) \<noteq> []" by (rule str_nat_nonempty)
  have hd0: "hd (str_nat (nat A)) \<noteq> CHR ''0''" using str_nat_hd [of "nat A"] leafA(2) by simp
  have h': "toBase10StringHelper (IntV n0) T 14
      = Some (Inr (str_int A @ str_int P4 @ replicate 8192 CHR ''0''))"
    using h by (simp only: append_assoc)
  have strip: "strip_leading_zeros (str_int A @ str_int P4 @ replicate 8192 CHR ''0'')
      = Some (Inr (str_int A @ str_int P4 @ replicate 8192 CHR ''0''))"
    by (rule strip_leading_zeros_id) (use ne hd0 in \<open>simp_all add: str_int_nonneg [OF A0]\<close>)
  show ?thesis
    using pos
    by (subst fastBigIntStrBase10.simps)
       (simp add: isinstance_int_def int_of_def T h' strip)
qed


subsection \<open>The conversion at an input that reaches the long-division exit\<close>

lemma nat_pow_int: "nat ((numeral b :: int) ^ k) = numeral b ^ k"
  by (simp add: nat_power_eq del: power_numeral)

lemma two_pow_13608: "(2::int) * 2 ^ 13607 = 2 ^ 13608"
proof -
  have "(2::int) ^ Suc 13607 = 2 * 2 ^ 13607" by (rule power_Suc)
  then show ?thesis by (simp del: power_numeral)
qed

lemma div_n0_P8:
  "divModPositiveArgs ((2 ^ 13608 + 1) * 10 ^ 12288) (10 ^ 8192)
     = Some (Inr ((2 ^ 13608 + 1) * 10 ^ 4096, 0))"
proof -
  define P8 :: int where "P8 = 10 ^ 8192"
  define m1 :: int where "m1 = (2 ^ 13608 + 1) * 10 ^ 4096"
  define n0 :: int where "n0 = (2 ^ 13608 + 1) * 10 ^ 12288"
  have n0: "n0 = m1 * P8" unfolding n0_def m1_def P8_def P12_split by (simp only: mult.assoc)
  have P8: "0 < P8" unfolding P8_def by (simp del: power_numeral)
  have m1: "0 \<le> m1" unfolding m1_def by (simp del: power_numeral)
  have nn: "0 \<le> n0" unfolding n0 using P8 m1 by simp
  have len: "bit_length n0 \<le> 2 * bit_length P8" unfolding n0_def P8_def bl_n0 bl_P8 by simp
  have "divmod_rec (DivMod n0 P8) = Some (Inr (n0 div P8, n0 mod P8))"
    using dm_exact [OF P8 nn] len by blast
  moreover have "n0 div P8 = m1" "n0 mod P8 = 0" unfolding n0 using P8 by simp_all
  ultimately show ?thesis unfolding divModPositiveArgs_def n0_def m1_def P8_def
    by (simp del: power_numeral)
qed

lemma div_m1_P4:
  "divModPositiveArgs ((2 ^ 13608 + 1) * 10 ^ 4096) (10 ^ 4096) = Some (Inr (2 ^ 13608, 10 ^ 4096))"
proof -
  have "divModPositiveArgs ((2 ^ 13608 + 1) * 10 ^ 4096) (10 ^ 4096)
      = Some (Inr (2 * 2 ^ 13607, 10 ^ 4096))"
  proof (rule long_division_slip)
    show "(0::int) < 10 ^ 4096" by (simp del: power_numeral)
    show "\<not> bit_length (10 ^ 4096) < 10000" unfolding bl_P4 by simp
    show "(2 ^ 13608 + 1) * 10 ^ 4096 = (2 * 2 ^ 13607 + 1) * (10::int) ^ 4096"
      unfolding two_pow_13608 ..
    show "(0::int) \<le> 2 ^ 13607" by (simp del: power_numeral)
    show "bit_length ((2 ^ 13608 + 1) * 10 ^ 4096) = 2 * bit_length (10 ^ 4096) + 1"
      unfolding bl_cP4 bl_P4 by simp
  qed
  then show ?thesis unfolding two_pow_13608 .
qed

lemma len_str_two_pow: "4096 \<le> length (str_nat (nat ((2::int) ^ 13608)))"
proof -
  have b: "(215917971802775::int) < 2 ^ 48" by simp
  have "(10::int) ^ 4096 < 2 ^ (48 + 13559)" using mant_upper [OF b P4_bounds(2)] .
  moreover have "(10::int) ^ 4095 \<le> 10 ^ 4096" by (intro power_increasing) simp_all
  moreover have "(2::int) ^ (48 + 13559) \<le> 2 ^ 13608" by (intro power_increasing) simp_all
  ultimately have "(10::int) ^ 4095 \<le> 2 ^ 13608" by linarith
  then have "int (10 ^ 4095) \<le> int (2 ^ 13608)" by (simp del: power_numeral)
  then have "(10::nat) ^ 4095 \<le> 2 ^ 13608" by (simp only: of_nat_le_iff)
  then have "4095 < length (str_nat (2 ^ 13608))" by (rule str_nat_length_ge)
  then show ?thesis unfolding nat_pow_int by linarith
qed

lemma len_str_ten_pow: "4096 \<le> length (str_nat (nat ((10::int) ^ 4096)))"
  unfolding nat_pow_int str_nat_pow10 by simp

lemma str_at_slip:
  "fastBigIntStrBase10 (IntV ((2 ^ 13608 + 1) * 10 ^ 12288))
     = Some (Inr (str_int (2 ^ 13608) @ str_int (10 ^ 4096) @ replicate 8192 CHR ''0''))"
proof (rule str_slip_trace)
  show "powers_loop [10] ((2 ^ 13608 + 1) * 10 ^ 12288)
      = Some (Inr (map (\<lambda>i. (10::int) ^ 2 ^ i) [0..<14]))"
    by (rule powers_loop_start [OF bl_n0])
  show "length (map (\<lambda>i. (10::int) ^ 2 ^ i) [0..<14]) = 14" by (simp only: length_map length_upt)
  have e: "(2::nat) ^ 13 = 8192" "(2::nat) ^ 12 = 4096" by simp_all
  show "py_index (map (\<lambda>i. (10::int) ^ 2 ^ i) [0..<14]) 13 = Inr (10 ^ 8192)"
    using table_index [of 13] unfolding e by (simp del: power_numeral upt_rec_numeral)
  show "py_index (map (\<lambda>i. (10::int) ^ 2 ^ i) [0..<14]) 12 = Inr (10 ^ 4096)"
    using table_index [of 12] unfolding e by (simp del: power_numeral upt_rec_numeral)
  show "\<not> bit_length ((2 ^ 13608 + 1) * 10 ^ 12288) < 20000" unfolding bl_n0 by simp
  show "\<not> bit_length ((2 ^ 13608 + 1) * 10 ^ 4096) < 20000" unfolding bl_cP4 by simp
  show "divModPositiveArgs ((2 ^ 13608 + 1) * 10 ^ 12288) (10 ^ 8192)
     = Some (Inr ((2 ^ 13608 + 1) * 10 ^ 4096, 0))" by (rule div_n0_P8)
  show "divModPositiveArgs ((2 ^ 13608 + 1) * 10 ^ 4096) (10 ^ 4096)
     = Some (Inr (2 ^ 13608, 10 ^ 4096))" by (rule div_m1_P4)
  show "bit_length (2 ^ 13608) < 20000" unfolding bit_length_pow2 by simp
  show "(0::int) < 2 ^ 13608" by (simp del: power_numeral)
  show "4096 \<le> length (str_nat (nat ((2::int) ^ 13608)))" by (rule len_str_two_pow)
  show "bit_length (10 ^ 4096) < 20000" unfolding bl_P4 by simp
  show "(0::int) \<le> 10 ^ 4096" by (simp del: power_numeral)
  show "4096 \<le> length (str_nat (nat ((10::int) ^ 4096)))" by (rule len_str_ten_pow)
  show "(0::int) < (2 ^ 13608 + 1) * 10 ^ 12288"
    by (intro mult_pos_pos add_pos_pos) (simp_all del: power_numeral)
qed


lemma parse_at_slip_general:
  assumes "0 < A"
  shows "parse_int (str_int A @ str_int (10 ^ k) @ replicate j CHR ''0'')
    = (A * 10 + 1) * 10 ^ (k + j)"
proof -
  have sA: "str_int A = str_nat (nat A)" using assms by (simp add: str_int_def)
  have "nat ((10::int) ^ k) = 10 ^ k" by (simp add: nat_power_eq)
  then have "str_nat (nat ((10::int) ^ k)) = CHR ''1'' # replicate k CHR ''0''"
    by (simp only: str_nat_pow10)
  then have sP: "str_int (10 ^ k) = CHR ''1'' # replicate k CHR ''0''"
    by (simp add: str_int_def)
  have pP: "parse_nat (CHR ''1'' # replicate k CHR ''0'') = 10 ^ k"
    using parse_nat_str_nat [of "10 ^ k"] unfolding str_nat_pow10 .
  have ne: "str_nat (nat A) @ (CHR ''1'' # replicate k CHR ''0'') @ replicate j CHR ''0'' \<noteq> []"
    by simp
  have hd: "hd (str_nat (nat A) @ (CHR ''1'' # replicate k CHR ''0'') @ replicate j CHR ''0'')
      \<noteq> CHR ''-''"
    using str_nat_hd [of "nat A"] str_nat_nonempty [of "nat A"] assms by simp
  have "parse_nat (str_nat (nat A) @ (CHR ''1'' # replicate k CHR ''0'') @ replicate j CHR ''0'')
      = nat A * 10 ^ (Suc k + j) + (10 ^ k * 10 ^ j + 0)"
    by (simp only: parse_nat_append parse_nat_str_nat pP parse_nat_zeros
          length_append length_replicate list.size length_Cons) simp
  then have "parse_int (str_nat (nat A) @ (CHR ''1'' # replicate k CHR ''0'') @ replicate j CHR ''0'')
      = int (nat A * 10 ^ (Suc k + j) + (10 ^ k * 10 ^ j + 0))"
    using parse_int_nonneg [OF ne hd] by simp
  also have "\<dots> = (A * 10 + 1) * 10 ^ (k + j)"
    using assms by (simp add: power_add algebra_simps)
  finally show ?thesis unfolding sA sP .
qed

lemma parse_at_slip:
  "parse_int (str_int (2 ^ 13608) @ str_int (10 ^ 4096) @ replicate 8192 CHR ''0'')
     = (2 ^ 13608 * 10 + 1) * 10 ^ 12288"
proof -
  have p: "(0::int) < 2 ^ 13608" by (simp del: power_numeral)
  have e: "4096 + 8192 = (12288::nat)" by simp
  show ?thesis using parse_at_slip_general [OF p, of 4096 8192] unfolding e .
qed

lemma slip_value_differs: "(2 ^ 13608 * 10 + 1) * (10::int) ^ 12288 \<noteq> (2 ^ 13608 + 1) * 10 ^ 12288"
proof -
  define a :: int where "a = 2 ^ 13608"
  define t :: int where "t = 10 ^ 12288"
  have a: "0 < a" unfolding a_def by (simp del: power_numeral)
  have t: "0 < t" unfolding t_def by (simp del: power_numeral)
  have "a + 1 < a * 10 + 1" using a by simp
  then have "(a + 1) * t < (a * 10 + 1) * t" using t by (simp only: mult_strict_right_mono)
  then show ?thesis unfolding a_def t_def by linarith
qed

subsection \<open>A dividend that the bit-length correction turns negative\<close>

lemma corr_neg_iterations_steps:
  "0 < n \<Longrightarrow> r + n * int j \<le> 0 \<Longrightarrow>
   corr_neg_iterations n r
     = Option.bind (corr_neg_iterations n (r + n * int j)) (\<lambda>c. Some (c + j))"
proof (induction j arbitrary: r)
  case 0
  show ?case by simp
next
  case (Suc j)
  have "0 < n * int (Suc j)" using Suc.prems(1) by simp
  then have neg: "r < 0" using Suc.prems(2) by linarith
  have le: "(r + n) + n * int j \<le> 0" using Suc.prems(2) by (simp add: algebra_simps)
  have "corr_neg_iterations n r
      = Option.bind (corr_neg_iterations n (r + n)) (\<lambda>c. Some (Suc c))"
    using neg by (subst corr_neg_iterations.simps) simp
  also have "corr_neg_iterations n (r + n)
      = Option.bind (corr_neg_iterations n (r + n + n * int j)) (\<lambda>c. Some (c + j))"
    by (rule Suc.IH [OF Suc.prems(1) le])
  finally show ?case by (simp add: algebra_simps)
qed

lemma corr_neg_iterations_eq:
  assumes "0 < n" "r = - (int j * n) + s" "0 \<le> s" "s < n" "0 < s"
  shows "corr_neg_iterations n r = Some j"
proof (cases j)
  case 0
  then show ?thesis using assms by (subst corr_neg_iterations.simps) simp
next
  case (Suc i)
  have le: "r + n * int i \<le> 0" unfolding assms(2) Suc using assms(4) by (simp add: algebra_simps)
  have "r + n * int i = s - n" unfolding assms(2) Suc by (simp add: algebra_simps)
  then have "corr_neg_iterations n (r + n * int i) = Some (Suc 0)"
    using assms(3,4)
    by (subst corr_neg_iterations.simps, simp, subst corr_neg_iterations.simps, simp)
  then show ?thesis
    using corr_neg_iterations_steps [OF assms(1) le] Suc by simp
qed

lemma divmod_unique:
  assumes "m = q * n + r" "0 \<le> r" "r < (n::int)"
  shows "m div n = q" "m mod n = r"
proof -
  show "m div n = q" unfolding assms(1) using assms(2,3) by (simp add: div_pos_pos_trivial)
  show "m mod n = r" unfolding assms(1) using assms(2,3) by (simp add: mod_pos_pos_trivial)
qed

lemma bit_length_pow2_minus_1: "0 < k \<Longrightarrow> bit_length (2 ^ k - 1) = k"
proof -
  assume "0 < k"
  then obtain j where k: "k = Suc j" by (cases k) auto
  have "(1::int) \<le> 2 ^ j" by simp
  then have "bit_length (2 ^ Suc j - 1) = Suc j"
    by (intro bit_length_eqI) simp_all
  then show ?thesis unfolding k .
qed

lemma pow2_forms:
  fixes a :: nat
  defines "P \<equiv> (2::int) ^ a"
  shows "(2::int) ^ (a + 1) = 2 * P" "(2::int) ^ (2 * a) = P * P"
    "(2::int) ^ (2 * a + 1) = 2 * (P * P)" "(2::int) ^ (2 * a + 2) = 4 * (P * P)"
    "(2::int) ^ (3 * a + 2) = 4 * (P * P * P)" "(2::int) ^ (4 * a + 3) = 8 * (P * P * P * P)"
proof -
  have e2: "(2::int) ^ (2 * a) = P * P"
    using power_mult [of "2::int" a 2] by (simp add: P_def mult.commute power2_eq_square)
  have e3: "(2::int) ^ (3 * a) = P * P * P"
    using power_mult [of "2::int" a 3] by (simp add: P_def mult.commute power3_eq_cube)
  have e4: "(2::int) ^ (4 * a) = P * P * P * P"
    using power_mult [of "2::int" a 4] by (simp add: P_def mult.commute power4_eq_xxxx)
  show "(2::int) ^ (a + 1) = 2 * P" by (simp add: P_def)
  show "(2::int) ^ (2 * a) = P * P" by (rule e2)
  show "(2::int) ^ (2 * a + 1) = 2 * (P * P)" by (simp only: power_add e2) simp
  show "(2::int) ^ (2 * a + 2) = 4 * (P * P)" by (simp only: power_add e2) simp
  show "(2::int) ^ (3 * a + 2) = 4 * (P * P * P)" by (simp only: power_add e3) simp
  show "(2::int) ^ (4 * a + 3) = 8 * (P * P * P * P)" by (simp only: power_add e4) simp
qed

lemma even_test: "\<not> int (2 * a + 2) AND 1 \<noteq> 0"
proof -
  have "int (2 * a + 2) mod 2 = 0" by presburger
  then show ?thesis unfolding and_one_eq by simp
qed

lemma push_bit_zero_or: "push_bit k (0::int) OR x = x"
  by simp

lemma overcorrection_facts:
  fixes a :: nat
  assumes a: "\<not> a < 10000"
  defines "P \<equiv> (2::int) ^ a"
  defines "n0 \<equiv> 4 * (P * P) - 1" and "nh \<equiv> 2 * P - 1" and "r1 \<equiv> 1 - 2 * (P * P)"
    and "mh \<equiv> 2 * (P * P) + P - 1"
    and "m0 \<equiv> 8 * (P * P * P * P) + 4 * (P * P * P) - 2 * (P * P)"
  shows "bit_length n0 = 2 * a + 2" "bit_length nh = a + 1" "bit_length r1 = 2 * a + 1"
    "bit_length mh = 2 * a + 2" "bit_length m0 = 4 * a + 4"
    "bit_length (P - 1) = a" "bit_length (- (P * P)) = 2 * a + 1"
    "bit_length (2 * (P * P)) = 2 * a + 2"
    "2 \<le> P"
proof -
  have apos: "0 < a" using a by simp
  note pf = pow2_forms [of a, folded P_def]
  have "(2::int) ^ 1 \<le> 2 ^ a" using apos by (intro power_increasing) simp_all
  then show P2: "2 \<le> P" by (simp add: P_def)
  show "bit_length n0 = 2 * a + 2"
    using bit_length_pow2_minus_1 [of "2 * a + 2"] unfolding pf n0_def by simp
  show "bit_length nh = a + 1"
    using bit_length_pow2_minus_1 [of "a + 1"] unfolding pf nh_def by simp
  have "bit_length (- r1) = 2 * a + 1"
    using bit_length_pow2_minus_1 [of "2 * a + 1"] unfolding pf r1_def by simp
  then show "bit_length r1 = 2 * a + 1" by simp
  show "bit_length (P - 1) = a" using bit_length_pow2_minus_1 [OF apos] unfolding P_def .
  show "bit_length (- (P * P)) = 2 * a + 1"
    using bit_length_pow2 [of "2 * a"] unfolding pf by simp
  show "bit_length (2 * (P * P)) = 2 * a + 2"
    using bit_length_pow2 [of "2 * a + 1"] unfolding pf by simp
  have Ppos: "0 < P" using P2 by simp
  have PP: "2 * (P * P) < 4 * (P * P)" using Ppos by simp
  show "bit_length mh = 2 * a + 2"
  proof -
    have "P - 1 < 2 * (P * P)"
    proof -
      have "P * 1 \<le> P * P" using P2 by (intro mult_left_mono) simp_all
      then show ?thesis using Ppos by linarith
    qed
    then have "2 ^ (2 * a + 1) \<le> \<bar>mh\<bar>" "\<bar>mh\<bar> < 2 ^ Suc (2 * a + 1)"
      unfolding power_Suc pf mh_def using P2 by simp_all
    then have "bit_length mh = Suc (2 * a + 1)" by (rule bit_length_eqI)
    then show ?thesis by simp
  qed
  show "bit_length m0 = 4 * a + 4"
  proof -
    have le: "(2::int) ^ (2 * a + 1) \<le> 2 ^ (3 * a + 2)" by (intro power_increasing) simp_all
    have lt: "(2::int) ^ (3 * a + 2) < 2 ^ (4 * a + 3)"
      using apos by (intro power_strict_increasing) simp_all
    have "(2::int) ^ (4 * a + 3) \<le> \<bar>2 ^ (4 * a + 3) + 2 ^ (3 * a + 2) - 2 ^ (2 * a + 1)\<bar>"
      "\<bar>(2::int) ^ (4 * a + 3) + 2 ^ (3 * a + 2) - 2 ^ (2 * a + 1)\<bar> < 2 ^ Suc (4 * a + 3)"
      using le lt zero_less_power [of "2::int" "2 * a + 1"] unfolding power_Suc by linarith+
    then have "bit_length (2 ^ (4 * a + 3) + 2 ^ (3 * a + 2) - 2 ^ (2 * a + 1)) = Suc (4 * a + 3)"
      by (rule bit_length_eqI)
    then show ?thesis unfolding pf m0_def by simp
  qed
qed

lemma overcorrection_trace:
  fixes a :: nat
  assumes a: "\<not> a < 10000"
  defines "P \<equiv> (2::int) ^ a"
  defines "n0 \<equiv> 4 * (P * P) - 1" and "nh \<equiv> 2 * P - 1" and "r1 \<equiv> 1 - 2 * (P * P)"
    and "m0 \<equiv> 8 * (P * P * P * P) + 4 * (P * P * P) - 2 * (P * P)"
  shows "divModPositiveArgs m0 n0 =
      bindR (divModPositiveArgs r1 nh) (\<lambda>(q2, r2).
        bindR (corr_neg n0 q2 (push_bit (a + 1) r2 - nh * q2)) (\<lambda>(q2, r2).
        bindR (corr_ge n0 q2 r2) (\<lambda>(q2, r2).
          Some (Inr (push_bit (a + 1) (P + 1) + q2, r2)))))"
    and "divModPositiveArgs r1 nh = bindR (corr_neg nh 0 r1) (\<lambda>(q, r). corr_ge nh q r)"
    and "corr_neg_iterations nh r1 = Some (2 ^ a + 1)"
    and "divModPositiveArgs m0 n0 = Some (Inr (2 * (P * P) + P, P))"
proof -
  define mh where "mh = 2 * (P * P) + P - 1"
  note bl = overcorrection_facts [OF a, folded P_def, folded n0_def nh_def r1_def mh_def m0_def]
  note pf = pow2_forms [of a, folded P_def]
  have P2: "2 \<le> P" by (rule bl(9))
  have Ppos: "0 < P" using P2 by simp
  have PP1: "1 * P \<le> P * P" using P2 by (intro mult_right_mono) simp_all
  have PP4: "2 * 2 \<le> P * P" using P2 by (intro mult_mono) simp_all
  have PP: "P \<le> P * P" "4 \<le> P * P" using PP1 PP4 by simp_all
  have nh_pos: "0 < nh" unfolding nh_def using P2 by simp
  have n0_pos: "0 < n0" unfolding n0_def using PP P2 by linarith
  have nb0: "\<not> bit_length n0 < 10000" unfolding bl(1) using a by simp
  have nbh: "\<not> bit_length nh < 10000" unfolding bl(2) using a by simp
  \<comment> \<open>the ideal case at the top\<close>
  have i1: "m0 = mh * (4 * (P * P)) + 2 * (P * P)"
    by (simp add: m0_def mh_def algebra_simps)
  have j1: "0 \<le> 2 * (P * P)" "2 * (P * P) < 4 * (P * P)" using PP by linarith+
  have f1: "m0 div 2 ^ (2 * a + 2) = mh" "m0 mod 2 ^ (2 * a + 2) = 2 * (P * P)"
    unfolding pf by (rule divmod_unique [OF i1 j1])+
  have i2: "n0 = nh * (2 * P) + nh" by (simp add: n0_def nh_def algebra_simps)
  have j2: "0 \<le> nh" "nh < 2 * P" unfolding nh_def using P2 by linarith+
  have f2: "n0 div 2 ^ (a + 1) = nh" "n0 mod 2 ^ (a + 1) = nh"
    unfolding pf by (rule divmod_unique [OF i2 j2])+
  have i4: "2 * (P * P) = P * (2 * P) + 0" by simp
  have j4: "(0::int) \<le> 0" "0 < 2 * P" using Ppos by simp_all
  have f4: "(2 * (P * P)) div 2 ^ (a + 1) = P" "(2 * (P * P)) mod 2 ^ (a + 1) = 0"
    unfolding pf by (rule divmod_unique [OF i4 j4])+
  have mh_nn: "0 \<le> mh" unfolding mh_def using PP P2 by linarith
  have "divmod_rec (DivMod mh nh) = Some (Inr (mh div nh, mh mod nh))"
    by (rule dm_exact [OF nh_pos mh_nn]) (simp add: bl)
  moreover have "mh = (P + 1) * nh + 0" by (simp add: mh_def nh_def algebra_simps)
  then have "mh div nh = P + 1" "mh mod nh = 0"
    using nh_pos by (auto intro: divmod_unique)
  ultimately have f3: "divmod_rec (DivMod mh nh) = Some (Inr (P + 1, 0))" by simp
  have f6: "(push_bit (a + 1) 0 OR P) - nh * (P + 1) = r1"
    unfolding nh_def r1_def by (simp add: algebra_simps)
  have ret: "bindR (Some (Inr v)) f = f v" for v :: "int \<times> int"
    and f :: "int \<times> int \<Rightarrow> (int \<times> int) result"
    by simp
  have ev: "(int (2 * a + 2) AND 1 \<noteq> 0) = False" using even_test [of a] by simp
  have or0: "x OR 0 = x" for x :: int by simp
  moreover have "r1 = - 1 * n0 + 2 * (P * P)" by (simp add: r1_def n0_def)
  moreover have "2 * (P * P) < n0" unfolding n0_def using PP by linarith
  ultimately have "r1 < 0" "r1 div n0 = - 1" "r1 mod n0 = 2 * (P * P)"
    using j1(1) by (auto intro: divmod_unique)
  then have f7: "corr_neg n0 (P + 1) r1 = Some (Inr (P, 2 * (P * P)))"
    by (simp add: corr_neg_eq [OF n0_pos])
  have "corr_bits (2 * a + 2) n0 P (2 * (P * P)) = corr_bits (2 * a + 2) n0 (P + 1) (2 * (P * P) - n0)"
    by (subst corr_bits.simps) (simp add: bl)
  also have "2 * (P * P) - n0 = r1" unfolding n0_def r1_def by simp
  also have "corr_bits (2 * a + 2) n0 (P + 1) r1 = Some (Inr (P + 1, r1))"
    by (subst corr_bits.simps) (simp add: bl)
  finally have f8: "corr_bits (2 * a + 2) n0 P (2 * (P * P)) = Some (Inr (P + 1, r1))" .
  have k: "2 * a + 2 = bit_length n0" and kf: "a + 1 = (2 * a + 2) div 2"
    and kc: "a + 1 = (2 * a + 2) - (2 * a + 2) div 2" by (simp_all add: bl)
  have len: "bit_length m0 = 2 * bit_length n0" by (simp add: bl)
  show "divModPositiveArgs m0 n0 =
      bindR (divModPositiveArgs r1 nh) (\<lambda>(q2, r2).
        bindR (corr_neg n0 q2 (push_bit (a + 1) r2 - nh * q2)) (\<lambda>(q2, r2).
        bindR (corr_ge n0 q2 r2) (\<lambda>(q2, r2).
          Some (Inr (push_bit (a + 1) (P + 1) + q2, r2)))))"
    unfolding divModPositiveArgs_def
    by (subst dm_ideal [OF nb0 len k kf kc])
       (simp only: f1 f2 f3 f4 f6 f7 f8 ret prod.case ev if_False or0)
  \<comment> \<open>the nested call with the negative dividend\<close>
  have h1: "r1 = - (P * P) * 2 ^ 1 + 1" by (simp add: r1_def)
  have g1: "r1 div 2 ^ 1 = - (P * P)" "r1 mod 2 ^ 1 = 1"
    by (rule divmod_unique(1) [OF h1], simp, simp, rule divmod_unique(2) [OF h1], simp, simp)
  have h2: "nh = (P - 1) * 2 ^ 1 + 1" by (simp add: nh_def)
  have g2: "nh div 2 ^ 1 = P - 1" "nh mod 2 ^ 1 = 1"
    by (rule divmod_unique(1) [OF h2], simp, simp, rule divmod_unique(2) [OF h2], simp, simp)
  have nbl: "\<not> bit_length (P - 1) < 10000" unfolding bl(6) using a .
  have bl7: "bit_length (P * P) = 2 * a + 1" using bl(7) by simp
  have "divmod_rec (DivMod (- (P * P)) (P - 1)) = divmod_rec (LongDiv (P - 1) 0 (- (P * P)) 1)"
    using dm_long [OF nbl, of "- (P * P)"] by (simp add: bl bl7)
  also have "\<dots> = Some (Inr (0, - (P * P)))"
  proof -
    have "0 \<le> P * P" by simp
    then have "- (P * P) \<le> P - 1" using Ppos by linarith
    then show ?thesis by (simp add: longdiv_exit)
  qed
  finally have g3: "divmod_rec (DivMod (- (P * P)) (P - 1)) = Some (Inr (0, - (P * P)))" .
  have g4: "(push_bit 1 (- (P * P)) OR 1) - 1 * 0 = r1" unfolding shl1_or_1 r1_def by simp
  have e: "1 = bit_length nh - (bit_length r1 - bit_length nh)" using a by (simp add: bl)
  have c1: "bit_length nh < bit_length r1" using a by (simp add: bl)
  have c2: "bit_length r1 < 2 * bit_length nh" by (simp add: bl)
  show "divModPositiveArgs r1 nh = bindR (corr_neg nh 0 r1) (\<lambda>(q, r). corr_ge nh q r)"
    unfolding divModPositiveArgs_def
    by (subst dm_short [OF nbh c1 c2 e]) (simp only: g1 g2 g3 g4 ret prod.case)
  \<comment> \<open>its correction loop\<close>
  have "corr_neg_iterations nh r1 = Some (nat (P + 1))"
  proof (rule corr_neg_iterations_eq [OF nh_pos, where s = P])
    show "r1 = - (int (nat (P + 1)) * nh) + P"
      using Ppos by (simp add: r1_def nh_def algebra_simps)
    show "0 \<le> P" "P < nh" "0 < P" using P2 by (simp_all add: nh_def)
  qed
  also have "nat (P + 1) = 2 ^ a + 1" unfolding P_def by (simp add: nat_add_distrib nat_power_eq)
  finally show "corr_neg_iterations nh r1 = Some (2 ^ a + 1)" .
  \<comment> \<open>the value returned in the end\<close>
  have "0 \<le> mh * (4 * (P * P))" using mh_nn PP Ppos by (intro mult_nonneg_nonneg) linarith+
  then have m0_nn: "0 \<le> m0" unfolding i1 using j1(1) by linarith
  have "divmod_rec (DivMod m0 n0) = Some (Inr (m0 div n0, m0 mod n0))"
    by (rule dm_exact [OF n0_pos m0_nn]) (simp add: bl)
  moreover have "m0 = (2 * (P * P) + P) * n0 + P" by (simp add: m0_def n0_def algebra_simps)
  moreover have "P < n0" unfolding n0_def using PP by linarith
  ultimately have "divmod_rec (DivMod m0 n0) = Some (Inr (2 * (P * P) + P, P))"
    using Ppos divmod_unique [of m0 "2 * (P * P) + P" n0 P] by simp
  then show "divModPositiveArgs m0 n0 = Some (Inr (2 * (P * P) + P, P))"
    unfolding divModPositiveArgs_def .
qed

lemma corr_neg_counted:
  "corr_neg_iterations n r = Some c \<Longrightarrow>
   corr_neg n q r = Some (Inr (q - int c, r + int c * n))"
proof (induction c arbitrary: q r)
  case 0
  have "\<not> r < 0"
  proof
    assume "r < 0"
    then have "corr_neg_iterations n r
        = Option.bind (corr_neg_iterations n (r + n)) (\<lambda>c. Some (Suc c))"
      by (subst corr_neg_iterations.simps) simp
    with 0 have "Option.bind (corr_neg_iterations n (r + n)) (\<lambda>c. Some (Suc c)) = Some 0"
      by simp
    then show False by (auto simp: bind_eq_Some_conv)
  qed
  then show ?case by (simp add: corr_neg_exit)
next
  case (Suc c)
  have neg: "r < 0"
  proof (rule ccontr)
    assume "\<not> r < 0"
    then have "corr_neg_iterations n r = Some 0"
      by (subst corr_neg_iterations.simps) simp
    then show False using Suc.prems by simp
  qed
  then have "corr_neg_iterations n r
      = Option.bind (corr_neg_iterations n (r + n)) (\<lambda>c. Some (Suc c))"
    by (subst corr_neg_iterations.simps) simp
  with Suc.prems
  have "Option.bind (corr_neg_iterations n (r + n)) (\<lambda>c. Some (Suc c)) = Some (Suc c)"
    by simp
  then have "corr_neg_iterations n (r + n) = Some c"
    by (auto simp: bind_eq_Some_conv)
  then have "corr_neg n (q - 1) (r + n) = Some (Inr (q - 1 - int c, r + n + int c * n))"
    by (rule Suc.IH)
  moreover have "corr_neg n q r = corr_neg n (q - 1) (r + n)"
    using neg by (subst corr_neg.simps) simp
  ultimately show ?case by (simp add: algebra_simps)
qed

lemma small_bound_exceeded: "\<not> a < 10000 \<Longrightarrow> (4::nat) < 2 ^ a + 1"
proof -
  assume "\<not> a < 10000"
  then have "(2::nat) ^ 2 \<le> 2 ^ a" by (intro power_increasing) simp_all
  then show ?thesis by simp
qed

lemma overcorrection_at_10000:
  "divModPositiveArgs (2 ^ 40003 + 2 ^ 30002 - 2 ^ 20001) (2 ^ 20002 - 1)
      = bindR (divModPositiveArgs (1 - 2 ^ 20001) (2 ^ 10001 - 1)) (\<lambda>(q2, r2).
        bindR (corr_neg (2 ^ 20002 - 1) q2 (push_bit 10001 r2 - (2 ^ 10001 - 1) * q2)) (\<lambda>(q2, r2).
        bindR (corr_ge (2 ^ 20002 - 1) q2 r2) (\<lambda>(q2, r2).
          Some (Inr (push_bit 10001 (2 ^ 10000 + 1) + q2, r2)))))"
  "divModPositiveArgs (1 - 2 ^ 20001) (2 ^ 10001 - 1)
      = bindR (corr_neg (2 ^ 10001 - 1) 0 (1 - 2 ^ 20001)) (\<lambda>(q, r). corr_ge (2 ^ 10001 - 1) q r)"
  "corr_neg_iterations (2 ^ 10001 - 1) (1 - 2 ^ 20001) = Some (2 ^ 10000 + 1)"
  "divModPositiveArgs (2 ^ 40003 + 2 ^ 30002 - 2 ^ 20001) (2 ^ 20002 - 1)
      = Some (Inr (2 ^ 20001 + 2 ^ 10000, 2 ^ 10000))"
  "(4::nat) < 2 ^ 10000 + 1"
proof -
  have a: "\<not> (10000::nat) < 10000" by simp
  have e: "10000 + 1 = (10001::nat)" "2 * 10000 + 1 = (20001::nat)" "2 * 10000 + 2 = (20002::nat)"
    "3 * 10000 + 2 = (30002::nat)" "4 * 10000 + 3 = (40003::nat)"
    by simp_all
  note pf = pow2_forms [of 10000, unfolded e]
  note t = overcorrection_trace [OF a, unfolded e]
  show "divModPositiveArgs (2 ^ 40003 + 2 ^ 30002 - 2 ^ 20001) (2 ^ 20002 - 1)
      = bindR (divModPositiveArgs (1 - 2 ^ 20001) (2 ^ 10001 - 1)) (\<lambda>(q2, r2).
        bindR (corr_neg (2 ^ 20002 - 1) q2 (push_bit 10001 r2 - (2 ^ 10001 - 1) * q2)) (\<lambda>(q2, r2).
        bindR (corr_ge (2 ^ 20002 - 1) q2 r2) (\<lambda>(q2, r2).
          Some (Inr (push_bit 10001 (2 ^ 10000 + 1) + q2, r2)))))"
    unfolding pf by (rule t(1))
  show "divModPositiveArgs (1 - 2 ^ 20001) (2 ^ 10001 - 1)
      = bindR (corr_neg (2 ^ 10001 - 1) 0 (1 - 2 ^ 20001)) (\<lambda>(q, r). corr_ge (2 ^ 10001 - 1) q r)"
    unfolding pf by (rule t(2))
  show "corr_neg_iterations (2 ^ 10001 - 1) (1 - 2 ^ 20001) = Some (2 ^ 10000 + 1)"
    unfolding pf by (rule t(3))
  show "divModPositiveArgs (2 ^ 40003 + 2 ^ 30002 - 2 ^ 20001) (2 ^ 20002 - 1)
      = Some (Inr (2 ^ 20001 + 2 ^ 10000, 2 ^ 10000))"
    unfolding pf by (rule t(4))
  show "(4::nat) < 2 ^ 10000 + 1" by (rule small_bound_exceeded [OF a])
qed

lemma overcorrection_loop_result:
  "corr_neg (2 ^ 10001 - 1) 0 (1 - 2 ^ 20001) = Some (Inr (- (2 ^ 10000 + 1), 2 ^ 10000))"
proof -
  define P :: int where "P = 2 ^ 10000"
  have e: "10000 + 1 = (10001::nat)" "2 * 10000 + 1 = (20001::nat)" by simp_all
  note pf = pow2_forms(1,3) [of 10000, unfolded e, folded P_def]
  have c: "int (2 ^ 10000 + 1) = P + 1" unfolding P_def by (simp del: power_numeral)
  have "corr_neg (2 * P - 1) 0 (1 - 2 * (P * P))
      = Some (Inr (0 - int (2 ^ 10000 + 1), 1 - 2 * (P * P) + int (2 ^ 10000 + 1) * (2 * P - 1)))"
    by (rule corr_neg_counted) (rule overcorrection_at_10000(3) [unfolded pf])
  also have "0 - int (2 ^ 10000 + 1) = - (P + 1)" unfolding c by simp
  also have "1 - 2 * (P * P) + int (2 ^ 10000 + 1) * (2 * P - 1) = P"
    unfolding c by (simp add: algebra_simps)
  finally show ?thesis unfolding pf P_def .
qed

section \<open>Claims\<close>

text \<open>
  Claim C1. For nonnegative \<open>m\<close> and positive \<open>n\<close> the kernel is to return \<open>(q, r)\<close> with
  \<open>m = q * n + r\<close> and \<open>0 \<le> r < n\<close> in every case. The long-division case leaves its
  loop on \<^verbatim>\<open>r > n\<close>, so a working remainder equal to the divisor is returned as it is: for
  \<open>m = 2 ^ 20000 + 2 ^ 9999\<close> and \<open>n = 2 ^ 9999\<close> the kernel returns \<open>(2 ^ 10001, 2 ^ 9999)\<close>,
  whose remainder is the divisor itself.
\<close>

theorem C1_long_division_returns_divisor:
  "divModPositiveArgs (2 ^ 20000 + 2 ^ 9999) (2 ^ 9999) = Some (Inr (2 ^ 10001, 2 ^ 9999))"
  by (rule slip_concrete)

text \<open>
  Claim C2. The public \<^verbatim>\<open>fastBigIntDivMod\<close> is to agree with the host's \<^verbatim>\<open>divmod\<close> for
  every \<open>m\<close> and every \<open>n \<noteq> 0\<close>. For two positive arguments it returns the kernel's pair
  unchanged, so at \<open>m = 2 ^ 20000 + 2 ^ 9999\<close>, \<open>n = 2 ^ 9999\<close> it returns
  \<open>(2 ^ 10001, 2 ^ 9999)\<close>, while the host's \<^verbatim>\<open>divmod\<close> gives \<open>(2 ^ 10001 + 1, 0)\<close>.
\<close>

theorem C2_wrapper_differs_from_host_divmod:
  "fastBigIntDivMod (IntV (2 ^ 20000 + 2 ^ 9999)) (IntV (2 ^ 9999))
     = Some (Inr (IntV (2 ^ 10001), IntV (2 ^ 9999)))
   \<and> py_divmod (2 ^ 20000 + 2 ^ 9999) (2 ^ 9999) = Some (Inr (2 ^ 10001 + 1, 0))"
  by (rule wrapper_at_slip)

theorem C2_wrapper_differs_from_host_divmod_witness:
  "\<exists>q r. fastBigIntDivMod (IntV (2 ^ 20000 + 2 ^ 9999)) (IntV (2 ^ 9999))
       = Some (Inr (IntV q, IntV r)) \<and> r = 2 ^ 9999"
  using C2_wrapper_differs_from_host_divmod by blast

text \<open>
  Claim C4. For every nonnegative integer \<open>n\<close>, \<^verbatim>\<open>fastBigIntFloorSqrt(n)\<close> returns an integer
  \<open>s\<close> with \<open>s * s \<le> n\<close> and \<open>(s + 1) * (s + 1) > n\<close>: whatever the Newton step produces, the
  correction by one restores the exact bound.
\<close>

theorem C4_floor_sqrt_exact:
  "0 \<le> n \<Longrightarrow> \<exists>s. fastBigIntFloorSqrt (IntV n) = Some (Inr (IntV s))
      \<and> s * s \<le> n \<and> (s + 1) * (s + 1) > n"
  using floorSqrt_correct [of n]
  by (auto simp: fastBigIntFloorSqrt_def isinstance_int_def int_of_def)

theorem C4_floor_sqrt_exact_witness:
  "\<exists>s. fastBigIntFloorSqrt (IntV 1000) = Some (Inr (IntV s))
      \<and> s * s \<le> 1000 \<and> (s + 1) * (s + 1) > 1000"
  using C4_floor_sqrt_exact [of 1000] by simp

text \<open>
  Claim C10. In \<^verbatim>\<open>_floorSqrtPositiveInt\<close>, for every nonnegative \<open>n\<close> of bit length at least 8,
  the recursive call on \<^verbatim>\<open>n >> padBits\<close> returns an integer \<open>s\<close>, the approximation
  \<^verbatim>\<open>s << resultPadBits\<close> is at least 1, and the division of \<open>n\<close> by it returns a pair: the
  divisor of the Newton step is never zero.
\<close>

theorem C10_newton_divisor_positive:
  assumes "0 \<le> n" "8 \<le> bit_length n"
  shows "\<exists>s. floorSqrtPositiveInt (IntV (drop_bit (2 * (bit_length n div 4)) n)) = Some (Inr (IntV s))
     \<and> 1 \<le> push_bit (bit_length n div 4) s
     \<and> (\<exists>q r. divModPositiveArgs n (push_bit (bit_length n div 4) s) = Some (Inr (q, r)))"
proof -
  define n' where "n' = drop_bit (2 * (bit_length n div 4)) n"
  have n': "8 \<le> n'" unfolding n'_def using sqrt_pad_arg [OF assms] by auto
  then obtain s where s: "floorSqrtPositiveInt (IntV n') = Some (Inr (IntV s))" "0 \<le> s"
    "n' < (s + 1) * (s + 1)"
    using floorSqrt_correct [of n'] by auto
  have "1 \<le> s"
  proof (rule ccontr)
    assume "\<not> 1 \<le> s"
    then have "s = 0" using s(2) by simp
    then show False using s(3) n' by simp
  qed
  then have "1 * 1 \<le> s * 2 ^ (bit_length n div 4)" by (intro mult_mono) simp_all
  then have ap: "1 \<le> push_bit (bit_length n div 4) s" unfolding push_bit_eq_mult by simp
  then have "0 < push_bit (bit_length n div 4) s" by linarith
  then obtain q r where "divModPositiveArgs n (push_bit (bit_length n div 4) s) = Some (Inr (q, r))"
    by (rule kernel_total)
  then show ?thesis using s(1) ap unfolding n'_def by blast
qed

theorem C10_newton_divisor_positive_witness:
  "\<exists>s. floorSqrtPositiveInt (IntV (drop_bit 4 1000)) = Some (Inr (IntV s))
     \<and> 1 \<le> push_bit 2 s
     \<and> (\<exists>q r. divModPositiveArgs 1000 (push_bit 2 s) = Some (Inr (q, r)))"
proof -
  have "bit_length 1000 = 10" using bit_length_eqI [of 9 1000] by simp
  then show ?thesis using C10_newton_divisor_positive [of 1000] by simp
qed

text \<open>
  Claim C6. \<^verbatim>\<open>fastBigIntDivMod(m, n)\<close> raises \<^verbatim>\<open>TypeError\<close> if and only if one of its
  arguments is not an \<^verbatim>\<open>int\<close> instance. With integer arguments and \<open>n = 0\<close> it raises
  \<^verbatim>\<open>ZeroDivisionError\<close>, and that error is the host \<^verbatim>\<open>divmod\<close>'s: the divisor has bit
  length 0, so the kernel call is the bailout call \<^verbatim>\<open>divmod(abs(m), 0)\<close>. In neither failure
  case is a pair returned.
\<close>

theorem C6_wrapper_failures:
  "(fastBigIntDivMod mv nv = Some (Inl TypeError)
      \<longleftrightarrow> \<not> isinstance_int mv \<or> \<not> isinstance_int nv)
   \<and> (isinstance_int mv \<and> isinstance_int nv \<and> int_of nv = 0 \<longrightarrow>
        fastBigIntDivMod mv nv = Some (Inl ZeroDivisionError)
        \<and> bit_length \<bar>int_of nv\<bar> < 10000
        \<and> divModPositiveArgs \<bar>int_of mv\<bar> \<bar>int_of nv\<bar> = py_divmod \<bar>int_of mv\<bar> \<bar>int_of nv\<bar>
        \<and> py_divmod \<bar>int_of mv\<bar> \<bar>int_of nv\<bar> = Some (Inl ZeroDivisionError))
   \<and> (\<not> isinstance_int mv \<or> \<not> isinstance_int nv \<or> int_of nv = 0 \<longrightarrow>
        (\<forall>v. fastBigIntDivMod mv nv \<noteq> Some (Inr v)))"
proof (intro conjI impI)
  show "fastBigIntDivMod mv nv = Some (Inl TypeError)
      \<longleftrightarrow> \<not> isinstance_int mv \<or> \<not> isinstance_int nv"
    by (rule wrapper_type_error_iff)
next
  assume a: "isinstance_int mv \<and> isinstance_int nv \<and> int_of nv = 0"
  then show "fastBigIntDivMod mv nv = Some (Inl ZeroDivisionError)"
    by (simp add: wrapper_zero_divisor)
  show "bit_length \<bar>int_of nv\<bar> < 10000" using a by (simp add: kernel_zero_divisor)
  show "divModPositiveArgs \<bar>int_of mv\<bar> \<bar>int_of nv\<bar> = py_divmod \<bar>int_of mv\<bar> \<bar>int_of nv\<bar>"
    using a by (simp add: kernel_zero_divisor)
  show "py_divmod \<bar>int_of mv\<bar> \<bar>int_of nv\<bar> = Some (Inl ZeroDivisionError)"
    using a by (simp add: kernel_zero_divisor)
next
  assume "\<not> isinstance_int mv \<or> \<not> isinstance_int nv \<or> int_of nv = 0"
  then consider "\<not> isinstance_int mv \<or> \<not> isinstance_int nv"
    | "isinstance_int mv" "isinstance_int nv" "int_of nv = 0" by blast
  then show "\<forall>v. fastBigIntDivMod mv nv \<noteq> Some (Inr v)"
  proof cases
    case 1
    then have "fastBigIntDivMod mv nv = Some (Inl TypeError)" by (simp add: wrapper_type_error_iff)
    then show ?thesis by simp
  next
    case 2
    then show ?thesis by (simp add: wrapper_zero_divisor)
  qed
qed

theorem C6_wrapper_failures_witness:
  "fastBigIntDivMod (StrV ''7'') (IntV 2) = Some (Inl TypeError)
   \<and> fastBigIntDivMod (IntV 7) (IntV 0) = Some (Inl ZeroDivisionError)
   \<and> divModPositiveArgs 7 0 = py_divmod 7 0
   \<and> fastBigIntDivMod (IntV 7) (IntV 2) \<noteq> Some (Inl TypeError)"
  using C6_wrapper_failures [of "StrV ''7''" "IntV 2"] C6_wrapper_failures [of "IntV 7" "IntV 0"]
    C6_wrapper_failures [of "IntV 7" "IntV 2"]
  by (simp add: isinstance_int_def int_of_def)

text \<open>
  Claim C7. \<^verbatim>\<open>fastBigIntFloorSqrt(n)\<close> raises \<^verbatim>\<open>TypeError\<close> if and only if \<open>n\<close> is not an
  \<^verbatim>\<open>int\<close> instance, raises \<^verbatim>\<open>ValueError\<close> if and only if \<open>n\<close> is an \<^verbatim>\<open>int\<close> instance below
  zero, and returns a value exactly in the remaining case; \<^verbatim>\<open>fastBigIntStrBase10\<close> raises
  \<^verbatim>\<open>TypeError\<close> if and only if its argument is not an \<^verbatim>\<open>int\<close> instance.
\<close>

theorem C7_sqrt_and_str_failures:
  "(fastBigIntFloorSqrt nv = Some (Inl TypeError) \<longleftrightarrow> \<not> isinstance_int nv)
   \<and> (fastBigIntFloorSqrt nv = Some (Inl ValueError) \<longleftrightarrow> isinstance_int nv \<and> int_of nv < 0)
   \<and> ((\<exists>v. fastBigIntFloorSqrt nv = Some (Inr v)) \<longleftrightarrow> isinstance_int nv \<and> \<not> int_of nv < 0)
   \<and> (fastBigIntStrBase10 nv = Some (Inl TypeError) \<longleftrightarrow> \<not> isinstance_int nv)"
proof -
  consider (bad) "\<not> isinstance_int nv" | (neg) "isinstance_int nv" "int_of nv < 0"
    | (ok) "isinstance_int nv" "0 \<le> int_of nv" by linarith
  then have "(fastBigIntFloorSqrt nv = Some (Inl TypeError) \<longleftrightarrow> \<not> isinstance_int nv)
   \<and> (fastBigIntFloorSqrt nv = Some (Inl ValueError) \<longleftrightarrow> isinstance_int nv \<and> int_of nv < 0)
   \<and> ((\<exists>v. fastBigIntFloorSqrt nv = Some (Inr v)) \<longleftrightarrow> isinstance_int nv \<and> \<not> int_of nv < 0)"
  proof cases
    case bad
    then show ?thesis by (simp add: fastBigIntFloorSqrt_def)
  next
    case neg
    then show ?thesis by (simp add: fastBigIntFloorSqrt_def)
  next
    case ok
    obtain v where "floorSqrtPositiveInt nv = Some (Inr v)" using floorSqrt_returns [OF ok] by blast
    then show ?thesis using ok by (simp add: fastBigIntFloorSqrt_def)
  qed
  then show ?thesis using strBase10_type_error_iff [of nv] by blast
qed

theorem C7_sqrt_and_str_failures_witness:
  "fastBigIntFloorSqrt NoneV = Some (Inl TypeError)
   \<and> fastBigIntFloorSqrt (IntV (- 4)) = Some (Inl ValueError)
   \<and> (\<exists>v. fastBigIntFloorSqrt (IntV 16) = Some (Inr v))
   \<and> fastBigIntStrBase10 (StrV ''12'') = Some (Inl TypeError)
   \<and> fastBigIntStrBase10 (IntV 12) \<noteq> Some (Inl TypeError)"
  using C7_sqrt_and_str_failures [of NoneV] C7_sqrt_and_str_failures [of "IntV (- 4)"] C7_sqrt_and_str_failures [of "IntV 16"]
    C7_sqrt_and_str_failures [of "StrV ''12''"] C7_sqrt_and_str_failures [of "IntV 12"]
  by (simp add: isinstance_int_def int_of_def)

text \<open>
  Claim C9. The three entry points accept Python booleans: none of them raises
  \<^verbatim>\<open>TypeError\<close> on a \<^verbatim>\<open>bool\<close>. \<^verbatim>\<open>fastBigIntDivMod(True, True)\<close> returns \<open>(1, 0)\<close>,
  \<^verbatim>\<open>fastBigIntStrBase10(False)\<close> returns \<open>''0''\<close>, and \<^verbatim>\<open>fastBigIntFloorSqrt(True)\<close> returns its
  argument, the boolean \<^verbatim>\<open>True\<close>, which Python's \<^verbatim>\<open>==\<close> identifies with the integer 1.
\<close>

theorem C9_booleans_accepted:
  "fastBigIntDivMod (BoolV b) (BoolV c) \<noteq> Some (Inl TypeError)
   \<and> fastBigIntStrBase10 (BoolV b) \<noteq> Some (Inl TypeError)
   \<and> fastBigIntFloorSqrt (BoolV b) \<noteq> Some (Inl TypeError)
   \<and> fastBigIntDivMod (BoolV True) (BoolV True) = Some (Inr (IntV 1, IntV 0))
   \<and> fastBigIntStrBase10 (BoolV False) = Some (Inr ''0'')
   \<and> fastBigIntFloorSqrt (BoolV True) = Some (Inr (BoolV True))
   \<and> py_eq (BoolV True) (IntV 1)"
proof (intro conjI)
  have inst: "isinstance_int (BoolV x)" for x by (simp add: isinstance_int_def)
  show "fastBigIntDivMod (BoolV b) (BoolV c) \<noteq> Some (Inl TypeError)"
    by (simp add: wrapper_type_error_iff inst)
  show "fastBigIntStrBase10 (BoolV b) \<noteq> Some (Inl TypeError)"
    by (simp add: strBase10_type_error_iff inst)
  show "fastBigIntFloorSqrt (BoolV b) \<noteq> Some (Inl TypeError)"
    by (simp add: fastBigIntFloorSqrt_def inst int_of_def fs_small bit_length_1)
  have "divModPositiveArgs 1 1 = Some (Inr (1, 0))"
    by (simp add: divModPositiveArgs_def dm_bailout bit_length_1 py_divmod_def)
  then show "fastBigIntDivMod (BoolV True) (BoolV True) = Some (Inr (IntV 1, IntV 0))"
    by (simp add: fastBigIntDivMod_def inst int_of_def)
  show "fastBigIntStrBase10 (BoolV False) = Some (Inr ''0'')"
    by (subst fastBigIntStrBase10.simps) (simp add: inst int_of_def)
  show "fastBigIntFloorSqrt (BoolV True) = Some (Inr (BoolV True))"
    by (simp add: fastBigIntFloorSqrt_def inst int_of_def fs_small bit_length_1)
  show "py_eq (BoolV True) (IntV 1)"
    by (simp add: py_eq_def isinstance_int_def int_of_def)
qed

theorem C9_booleans_accepted_witness:
  "fastBigIntDivMod (BoolV True) (BoolV False) \<noteq> Some (Inl TypeError)
   \<and> fastBigIntStrBase10 (BoolV True) \<noteq> Some (Inl TypeError)
   \<and> fastBigIntFloorSqrt (BoolV True) = Some (Inr (BoolV True))"
  using C9_booleans_accepted [of True False] by simp

text \<open>
  Claim C8. The library performs no output. Its one output statement, the \<^verbatim>\<open>print\<close> of the
  case \<^verbatim>\<open>m_len < 2 * n_len\<close>, is guarded by \<^verbatim>\<open>n_hi == 0\<close>; for nonnegative \<open>m\<close> and positive
  \<open>n\<close> with at least 10000 bits and \<open>bit_length n < bit_length m < 2 * bit_length n\<close>, the
  high part \<open>n_hi\<close> keeps the top set bit of \<open>n\<close> and is at least 1, so the statement is
  not executed. (By \<open>debug_print_never_fires\<close> no call at all executes it.)
\<close>

theorem C8_debug_print_unreachable:
  assumes "0 \<le> m" "0 < n" "10000 \<le> bit_length n" "bit_length n < bit_length m"
    "bit_length m < 2 * bit_length n"
  shows "1 \<le> fst (splitHiLo n (bit_length n - (bit_length m - bit_length n)))
    \<and> \<not> debug_print_fires m n"
proof
  have "bit_length n - (bit_length m - bit_length n) < bit_length n" using assms(3,4) by linarith
  then have "0 < n div 2 ^ (bit_length n - (bit_length m - bit_length n))"
    by (rule hi_part_pos(1) [OF assms(2)])
  then show "1 \<le> fst (splitHiLo n (bit_length n - (bit_length m - bit_length n)))"
    by (simp add: splitHiLo_eq)
  show "\<not> debug_print_fires m n" by (rule debug_print_never_fires)
qed

theorem C8_debug_print_unreachable_witness:
  "1 \<le> fst (splitHiLo (2 ^ 9999) (bit_length (2 ^ 9999) - (bit_length (2 ^ 10001) - bit_length (2 ^ 9999))))
    \<and> \<not> debug_print_fires (2 ^ 10001) (2 ^ 9999)"
proof (rule C8_debug_print_unreachable)
  show "(0::int) \<le> 2 ^ 10001" "(0::int) < 2 ^ 9999" by (simp_all del: power_numeral)
  show "10000 \<le> bit_length (2 ^ 9999)" "bit_length (2 ^ 9999) < bit_length (2 ^ 10001)"
    "bit_length (2 ^ 10001) < 2 * bit_length (2 ^ 9999)"
    by (simp_all add: bit_length_pow2 del: power_numeral)
qed

text \<open>
  Claim C3. \<^verbatim>\<open>fastBigIntStrBase10(n)\<close> is to return the decimal expansion of \<open>n\<close>, so that
  parsing the returned string gives \<open>n\<close> back. For \<open>n = (2 ^ 13608 + 1) * 10 ^ 12288\<close> the
  helper divides \<open>(2 ^ 13608 + 1) * 10 ^ 4096\<close> by \<open>10 ^ 4096\<close>; the dividend is one bit longer
  than twice the divisor, the kernel's long-division case returns \<open>(2 ^ 13608, 10 ^ 4096)\<close>,
  and the two halves are rendered with 4097 digits each. The returned string is the
  decimal expansion of \<open>(2 ^ 13608 * 10 + 1) * 10 ^ 12288\<close>, one digit longer than that of
  \<open>n\<close>.
\<close>

theorem C3_string_at_long_division_exit:
  "fastBigIntStrBase10 (IntV ((2 ^ 13608 + 1) * 10 ^ 12288))
     = Some (Inr (str_int (2 ^ 13608) @ str_int (10 ^ 4096) @ replicate 8192 CHR ''0''))
   \<and> parse_int (str_int (2 ^ 13608) @ str_int (10 ^ 4096) @ replicate 8192 CHR ''0'')
     = (2 ^ 13608 * 10 + 1) * 10 ^ 12288
   \<and> (2 ^ 13608 * 10 + 1) * (10::int) ^ 12288 \<noteq> (2 ^ 13608 + 1) * 10 ^ 12288"
  using str_at_slip parse_at_slip slip_value_differs by (intro conjI)

text \<open>
  Claim C5. For nonnegative \<open>m\<close> and positive \<open>n\<close> the kernel is to terminate, and no
  correction loop is to run more than 4 times at any recursion depth. The kernel does return
  for all such arguments (lemma \<open>kernel_total\<close>), but the bound on the correction loops does
  not hold. For \<open>m = 2 ^ 40003 + 2 ^ 30002 - 2 ^ 20001\<close> and \<open>n = 2 ^ 20002 - 1\<close> the ideal case
  leaves its loop \<^verbatim>\<open>while r1.bit_length() >= k\<close> with the negative value
  \<open>r1 = 1 - 2 ^ 20001\<close> and calls the kernel on \<open>(r1, 2 ^ 10001 - 1)\<close>. That call takes the
  short case; its inner call returns \<open>(0, - (2 ^ 20000))\<close>, so its loop
  \<^verbatim>\<open>while r < 0: r += n; q -= 1\<close> starts at \<open>q = 0\<close>, \<open>r = r1\<close> and ends at
  \<open>q = - (2 ^ 10000 + 1)\<close>, \<open>r = 2 ^ 10000\<close>: its body runs \<open>2 ^ 10000 + 1\<close> times. The pair
  returned by the outer call is nevertheless the quotient and remainder of \<open>m\<close> by \<open>n\<close>.
\<close>

theorem C5_correction_loop_exceeds_bound:
  "divModPositiveArgs (2 ^ 40003 + 2 ^ 30002 - 2 ^ 20001) (2 ^ 20002 - 1)
      = bindR (divModPositiveArgs (1 - 2 ^ 20001) (2 ^ 10001 - 1)) (\<lambda>(q2, r2).
        bindR (corr_neg (2 ^ 20002 - 1) q2 (push_bit 10001 r2 - (2 ^ 10001 - 1) * q2)) (\<lambda>(q2, r2).
        bindR (corr_ge (2 ^ 20002 - 1) q2 r2) (\<lambda>(q2, r2).
          Some (Inr (push_bit 10001 (2 ^ 10000 + 1) + q2, r2)))))
   \<and> divModPositiveArgs (1 - 2 ^ 20001) (2 ^ 10001 - 1)
      = bindR (corr_neg (2 ^ 10001 - 1) 0 (1 - 2 ^ 20001)) (\<lambda>(q, r). corr_ge (2 ^ 10001 - 1) q r)
   \<and> corr_neg (2 ^ 10001 - 1) 0 (1 - 2 ^ 20001) = Some (Inr (- (2 ^ 10000 + 1), 2 ^ 10000))
   \<and> corr_neg_iterations (2 ^ 10001 - 1) (1 - 2 ^ 20001) = Some (2 ^ 10000 + 1)
   \<and> (4::nat) < 2 ^ 10000 + 1
   \<and> divModPositiveArgs (2 ^ 40003 + 2 ^ 30002 - 2 ^ 20001) (2 ^ 20002 - 1)
      = Some (Inr (2 ^ 20001 + 2 ^ 10000, 2 ^ 10000))"
  by (intro conjI overcorrection_at_10000 overcorrection_loop_result)

end
